theory Spec2Isabelle
  imports Main "HOL-Library.AList"
begin

section \<open>Python values, strings and streams\<close>

text \<open>
  The parsers of \<^verbatim>\<open>pyserializer.py\<close> build a tree of dicts, lists and strings.
  A dict is an association list in insertion order: \<^verbatim>\<open>d[k] = v\<close> is
  \<open>AList.update k v d\<close> (an existing key keeps its position, a new key goes to the
  end), \<^verbatim>\<open>k in d\<close> is \<open>map_of d k \<noteq> None\<close>.
  A \<open>char\<close> stands for a code point below 256.
\<close>

datatype pyval = VStr string | VDict "(string \<times> pyval) list" | VList "pyval list"

type_synonym fields = "(string \<times> pyval) list"

text \<open>Exceptions: the \<^verbatim>\<open>ValueError\<close>s the code raises, with their messages, and the
  \<^verbatim>\<open>AttributeError\<close> of an attribute access on an object that lacks it.\<close>

datatype error = ValueError string | AttributeError string

text \<open>The \<^verbatim>\<open>logging\<close> module: every call appends a record to the log.\<close>

datatype level = WARNING | ERROR

type_synonym log = "(level \<times> string) list"

text \<open>What a call leaves behind: it returned a value or raised, the text the reader
  has not read yet, and the log.\<close>

type_synonym 'a outcome = "(error + 'a) \<times> string \<times> log"

definition newline :: char where
  "newline = CHR 0x0A"

text \<open>A text between apostrophes, as the messages of the code have it.\<close>

definition quoted :: "string \<Rightarrow> string" where
  "quoted s = CHR 0x27 # s @ [CHR 0x27]"

text \<open>\<^verbatim>\<open>str.strip()\<close> removes the characters for which \<^verbatim>\<open>str.isspace\<close> holds.\<close>

definition is_space :: "char \<Rightarrow> bool" where
  "is_space c = (c \<in> set [CHR 0x09, CHR 0x0A, CHR 0x0B, CHR 0x0C, CHR 0x0D,
     CHR 0x1C, CHR 0x1D, CHR 0x1E, CHR 0x1F, CHR 0x20, CHR 0x85, CHR 0xA0])"

definition strip :: "string \<Rightarrow> string" where
  "strip s = rev (dropWhile is_space (rev (dropWhile is_space s)))"

definition startswith :: "string \<Rightarrow> string \<Rightarrow> bool" where
  "startswith s p = (take (length p) s = p)"

text \<open>\<^verbatim>\<open>s.split(sep, 1)\<close>: one part when \<open>sep\<close> does not occur, else two.\<close>

definition split1 :: "char \<Rightarrow> string \<Rightarrow> string list" where
  "split1 sep s =
     (if sep \<in> set s
      then [takeWhile (\<lambda>c. c \<noteq> sep) s, tl (dropWhile (\<lambda>c. c \<noteq> sep) s)]
      else [s])"

text \<open>A reader is the text it has not read yet, as the stream delivers it (for a file
  opened in text mode, after the translation of line endings to the newline character).
  \<^verbatim>\<open>readline()\<close> returns the text up to and including the next newline (all of it
  when there is none, the empty string at the end of the input), and the reader moves
  past it.\<close>

fun readline :: "string \<Rightarrow> string \<times> string" where
  "readline [] = ([], [])"
| "readline (c # cs) =
     (if c = newline then ([c], cs)
      else (case readline cs of (l, r) \<Rightarrow> (c # l, r)))"

text \<open>\<^verbatim>\<open>readlines()\<close>: the lines that successive calls of \<^verbatim>\<open>readline()\<close> return.\<close>

fun readlines :: "string \<Rightarrow> string list" where
  "readlines [] = []"
| "readlines (c # cs) =
     (if c = newline then [c] # readlines cs
      else (case readlines cs of [] \<Rightarrow> [[c]] | l # ls \<Rightarrow> (c # l) # ls))"

section \<open>The Array-Field Policy\<close>

definition field_is_array :: "string \<Rightarrow> bool" where
  "field_is_array field = (field \<in> set [
     ''ITEMS'', ''FORMER-COMPANY'', ''DOCUMENT'', ''CLASS-CONTRACT'', ''FORMER-NAME'',
     ''FILER'', ''SERIES'', ''GROUP-MEMBERS'', ''FILED-FOR'', ''REPORTING-OWNER'',
     ''NEW-SERIES'', ''MERGER'', ''ITEM'', ''REFERENCES-429'', ''TARGET-DATA'',
     ''NEW-CLASSES-CONTRACTS'', ''SUBJECT-COMPANY'', ''RULE''])"

text \<open>
  The idiom \<^verbatim>\<open>if key not in fields: fields[key] = []\<close> followed by
  \<^verbatim>\<open>fields[key].append(x)\<close>. The second statement raises when the value under
  \<open>key\<close> is a string or a dict.
\<close>

definition list_append :: "fields \<Rightarrow> string \<Rightarrow> pyval \<Rightarrow> error + fields" where
  "list_append fields key x =
     (case map_of fields key of
        None \<Rightarrow> Inr (AList.update key (VList [x]) fields)
      | Some (VList xs) \<Rightarrow> Inr (AList.update key (VList (xs @ [x])) fields)
      | Some (VStr _) \<Rightarrow> Inl (AttributeError (quoted ''str'' @ '' object has no attribute '' @ quoted ''append''))
      | Some (VDict _) \<Rightarrow> Inl (AttributeError (quoted ''dict'' @ '' object has no attribute '' @ quoted ''append'')))"

text \<open>
  Both parsers attach a new empty record \<^verbatim>\<open>new_parent\<close> to its parent and fill it
  afterwards, in place. Nothing else refers to that record and the parent is not touched
  while the child is filled, so the model fills a copy and stores it into the parent's
  slot when the child is left: the slot is the value under the key, or the last element
  of the list under an array key.
\<close>

definition store_child :: "fields \<Rightarrow> string \<Rightarrow> fields \<Rightarrow> fields" where
  "store_child parent slot child =
     (if field_is_array slot
      then (case map_of parent slot of
              Some (VList xs) \<Rightarrow> AList.update slot (VList (butlast xs @ [VDict child])) parent
            | _ \<Rightarrow> parent)
      else AList.update slot (VDict child) parent)"

section \<open>The Header Block Parser\<close>

text \<open>A Key-Remap entry is a plain rename or a section: a canonical name and the
  table of the section.\<close>

datatype remap = Rename string | Section string "(string \<times> remap) list"

type_synonym key_map = "(string \<times> remap) list"

definition KEY_MAP :: key_map where
  "KEY_MAP = [
     (''ACCESSION NUMBER'', Rename ''ACCESSION-NUMBER''),
     (''CONFORMED SUBMISSION TYPE'', Rename ''TYPE''),
     (''PUBLIC DOCUMENT COUNT'', Rename ''PUBLIC-DOCUMENT-COUNT''),
     (''CONFORMED PERIOD OF REPORT'', Rename ''PERIOD''),
     (''FILED AS OF DATE'', Rename ''FILING-DATE''),
     (''DATE AS OF CHANGE'', Rename ''DATE-OF-FILING-DATE-CHANGE''),
     (''FILER'', Section ''FILER'' [
        (''COMPANY DATA'', Section ''COMPANY-DATA'' [
           (''COMPANY CONFORMED NAME'', Rename ''CONFORMED-NAME''),
           (''CENTRAL INDEX KEY'', Rename ''CIK''),
           (''STANDARD INDUSTRIAL CLASSIFICATION'', Rename ''ASSIGNED-SIC''),
           (''ORGANIZATION NAME'', Rename ''ORGANIZATION-NAME''),
           (''IRS NUMBER'', Rename ''IRS-NUMBER''),
           (''STATE OF INCORPORATION'', Rename ''STATE-OF-INCORPORATION''),
           (''FISCAL YEAR END'', Rename ''FISCAL-YEAR-END'')]),
        (''FILING VALUES'', Section ''FILING-VALUES'' [
           (''FORM TYPE'', Rename ''FORM-TYPE''),
           (''SEC ACT'', Rename ''ACT''),
           (''SEC FILE NUMBER'', Rename ''FILE-NUMBER''),
           (''FILM NUMBER'', Rename ''FILM-NUMBER'')]),
        (''BUSINESS ADDRESS'', Section ''BUSINESS-ADDRESS'' [
           (''STREET 1'', Rename ''STREET1''),
           (''CITY'', Rename ''CITY''),
           (''STATE'', Rename ''STATE''),
           (''ZIP'', Rename ''ZIP''),
           (''BUSINESS PHONE'', Rename ''PHONE'')]),
        (''MAIL ADDRESS'', Section ''MAIL-ADDRESS'' [
           (''STREET 1'', Rename ''STREET1''),
           (''CITY'', Rename ''CITY''),
           (''STATE'', Rename ''STATE''),
           (''ZIP'', Rename ''ZIP'')]),
        (''FORMER COMPANY'', Section ''FORMER-COMPANY'' [
           (''FORMER CONFORMED NAME'', Rename ''FORMER-CONFORMED-NAME''),
           (''DATE OF NAME CHANGE'', Rename ''DATE-CHANGED'')])])]"

text \<open>
  A frame of \<^verbatim>\<open>current_section_stack\<close>: the record being filled, the table in scope
  and the label. The fourth component is the key of the parent's slot that holds this
  record (see \<open>store_child\<close>); the root frame has none and carries the empty string.
\<close>

type_synonym frame = "fields \<times> key_map \<times> string \<times> string"

definition attach_back :: "frame \<Rightarrow> frame \<Rightarrow> frame" where
  "attach_back child parent =
     (case child of (cf, _, _, slot) \<Rightarrow>
      case parent of (pf, pkm, pl, ps) \<Rightarrow> (store_child pf slot cf, pkm, pl, ps))"

text \<open>The record the caller passed in, once every open section is stored back.\<close>

fun close_all :: "frame \<Rightarrow> frame list \<Rightarrow> fields" where
  "close_all cur [] = fst cur"
| "close_all cur (p # ps) = close_all (attach_back cur p) ps"

definition duplicate_warning :: "string \<Rightarrow> level \<times> string" where
  "duplicate_warning orig_key = (WARNING, ''Duplicate key found in the file: '' @ orig_key)"

definition unknown_warning :: "string \<Rightarrow> string \<Rightarrow> string \<Rightarrow> level \<times> string" where
  "unknown_warning key val label =
     (WARNING, ''Unknown key in SEC-HEADER: key='' @ key @ '', value='' @ val
               @ '', section='' @ label)"

definition MissingColonDelimiter :: "string \<Rightarrow> error" where
  "MissingColonDelimiter line =
     ValueError (''Invalid line format in SEC-HEADER, expected ': in line: '' @ line)"

text \<open>
  The loop of \<^verbatim>\<open>processTxtHeader\<close>. The stack is \<open>cur # below\<close>, top first: the
  only \<^verbatim>\<open>pop()\<close> is guarded by \<^verbatim>\<open>len(current_section_stack) > 1\<close>, so the stack is
  never empty and the loop condition \<^verbatim>\<open>len(current_section_stack) > 0\<close> always holds.
  The loop may run forever; then the value is \<open>None\<close>.
\<close>

partial_function (option) header_loop ::
  "frame \<Rightarrow> frame list \<Rightarrow> string \<Rightarrow> log \<Rightarrow> fields outcome option" where
  "header_loop cur below reader lg =
     (case cur of (fields, key_map, label, slot) \<Rightarrow>
      case readline reader of (line, reader1) \<Rightarrow>
        if line = [] \<or> strip line = [] then
          (if fields \<noteq> [] \<and> below \<noteq> []
           then header_loop (attach_back cur (hd below)) (tl below) reader1 lg
           else header_loop cur below reader1 lg)
        else if startswith line ''</SEC-HEADER>'' then
          Some (Inr (close_all cur below), reader1, lg)
        else if startswith line ''<ACCEPTANCE-DATETIME>'' then
          header_loop cur below reader1 lg
        else
          (case split1 CHR '':'' line of
             [] \<Rightarrow> Some (Inl (MissingColonDelimiter line), reader1, lg)
           | p0 # ps \<Rightarrow>
              (let key = strip p0;
                   val = (case ps of [] \<Rightarrow> [] | p1 # _ \<Rightarrow> strip p1)
               in case map_of key_map key of
                    Some (Section orig_key sub) \<Rightarrow>
                      (if field_is_array orig_key then
                         (case list_append fields orig_key (VDict []) of
                            Inl e \<Rightarrow> Some (Inl e, reader1, lg)
                          | Inr fields1 \<Rightarrow>
                              header_loop ([], sub, key, orig_key)
                                ((fields1, key_map, label, slot) # below) reader1 lg)
                       else
                         header_loop ([], sub, key, orig_key)
                           ((AList.update orig_key (VDict []) fields, key_map, label, slot) # below)
                           reader1
                           (if map_of fields orig_key \<noteq> None
                            then lg @ [duplicate_warning orig_key] else lg))
                  | Some (Rename orig_key) \<Rightarrow>
                      (if field_is_array orig_key then
                         (case list_append fields orig_key (VStr val) of
                            Inl e \<Rightarrow> Some (Inl e, reader1, lg)
                          | Inr fields1 \<Rightarrow>
                              header_loop (fields1, key_map, label, slot) below reader1 lg)
                       else
                         header_loop (AList.update orig_key (VStr val) fields, key_map, label, slot)
                           below reader1
                           (if map_of fields orig_key \<noteq> None
                            then lg @ [duplicate_warning orig_key] else lg))
                  | None \<Rightarrow>
                      header_loop cur below reader1
                        (if \<not> (key = [] \<or> val = []) \<and> key \<noteq> ''ITEM INFORMATION''
                         then lg @ [unknown_warning key val label] else lg))))"

declare header_loop.simps [code]

definition processTxtHeader :: "fields \<Rightarrow> string \<Rightarrow> log \<Rightarrow> fields outcome option" where
  "processTxtHeader fields reader lg = header_loop (fields, KEY_MAP, [], []) [] reader lg"

section \<open>The Tag-Block Parser\<close>

definition MissingOpenBracket :: "string \<Rightarrow> error" where
  "MissingOpenBracket line =
     ValueError (''Invalid line format, expected '<' at start of line, in line: '' @ line)"

definition MissingCloseBracket :: "string \<Rightarrow> error" where
  "MissingCloseBracket line =
     ValueError (''Invalid line format, expected '>' in line: '' @ line)"

definition UnterminatedRawBlock :: error where
  "UnterminatedRawBlock = ValueError ''Unexpected end of file while reading TEXT field''"

definition DuplicateKey :: "string \<Rightarrow> error" where
  "DuplicateKey key = ValueError (''Duplicate key found in the file: '' @ key)"

lemma readline_rest_le: "length (snd (readline r)) \<le> length r"
  by (induction r) (auto split: prod.splits)

lemma readline_shorter: "readline r = (l, r') \<Longrightarrow> l \<noteq> [] \<Longrightarrow> length r' < length r"
proof (cases r)
  case Nil
  assume "readline r = (l, r')" "l \<noteq> []"
  with Nil show ?thesis by simp
next
  case (Cons c cs)
  assume h: "readline r = (l, r')"
  have "length (snd (readline cs)) \<le> length cs" by (rule readline_rest_le)
  with h Cons show ?thesis by (auto split: if_splits prod.splits)
qed

text \<open>The inner loop of the \<^verbatim>\<open>TEXT\<close> branch: \<open>content\<close> is the list of lines read so
  far.\<close>

function read_text :: "string list \<Rightarrow> string \<Rightarrow> (error + string) \<times> string" where
  "read_text content reader =
     (case readline reader of (line, reader1) \<Rightarrow>
        if line = [] then (Inl UnterminatedRawBlock, reader1)
        else if startswith line ''</TEXT>'' then (Inr (concat content), reader1)
        else read_text (content @ [line]) reader1)"
  by pat_completeness auto
termination
  by (relation "measure (\<lambda>(c, r). length r)") (auto dest: readline_shorter [OF sym])

declare read_text.simps [simp del]

definition flag_keys :: "string list" where
  "flag_keys = [''ORGANIZATION-NAME'', ''CONFIRMING-COPY'', ''PRIVATE-TO-PUBLIC'',
                ''CORRECTION'', ''DELETION'']"

text \<open>
  \<^verbatim>\<open>process_nested_fields\<close>: the recursive call after each branch is the next
  iteration of the \<^verbatim>\<open>while True\<close> loop. It may not return, because the header
  parser may not.
\<close>

partial_function (option) process_nested_fields ::
  "string \<Rightarrow> fields \<Rightarrow> string \<Rightarrow> log \<Rightarrow> fields outcome option" where
  "process_nested_fields field_name fields reader lg =
     (case readline reader of (line, reader1) \<Rightarrow>
        if line = [] then Some (Inr fields, reader1, lg)
        else if startswith line (''</'' @ field_name @ ''>'') \<or> startswith line ''</SEC-DOCUMENT>''
          then Some (Inr fields, reader1, lg)
        else if \<not> startswith line ''<'' then Some (Inl (MissingOpenBracket line), reader1, lg)
        else
          (case split1 CHR ''>'' line of
             p0 # p1 # _ \<Rightarrow>
               (let key = strip (tl p0); val = strip p1 in
                if key = ''TEXT'' then
                  (case read_text [] reader1 of
                     (Inl e, reader2) \<Rightarrow> Some (Inl e, reader2, lg)
                   | (Inr content, reader2) \<Rightarrow>
                       process_nested_fields field_name
                         (AList.update key (VStr content) fields) reader2 lg)
                else if key = ''SEC-HEADER'' then
                  (case processTxtHeader fields reader1 lg of
                     None \<Rightarrow> None
                   | Some (Inl e, reader2, lg2) \<Rightarrow> Some (Inl e, reader2, lg2)
                   | Some (Inr fields2, reader2, lg2) \<Rightarrow>
                       process_nested_fields field_name fields2 reader2 lg2)
                else if val = [] \<and> key \<notin> set flag_keys then
                  (if field_is_array key then
                     (case list_append fields key (VDict []) of
                        Inl e \<Rightarrow> Some (Inl e, reader1, lg)
                      | Inr fields1 \<Rightarrow>
                          Option.bind (process_nested_fields key [] reader1 lg)
                            (\<lambda>r. case r of
                               (Inl e, reader2, lg2) \<Rightarrow> Some (Inl e, reader2, lg2)
                             | (Inr child, reader2, lg2) \<Rightarrow>
                                 process_nested_fields field_name
                                   (store_child fields1 key child) reader2 lg2))
                   else if map_of fields key \<noteq> None then
                     Some (Inl (DuplicateKey key), reader1, lg)
                   else
                     Option.bind (process_nested_fields key [] reader1 lg)
                       (\<lambda>r. case r of
                          (Inl e, reader2, lg2) \<Rightarrow> Some (Inl e, reader2, lg2)
                        | (Inr child, reader2, lg2) \<Rightarrow>
                            process_nested_fields field_name
                              (store_child (AList.update key (VDict []) fields) key child)
                              reader2 lg2))
                else
                  (if field_is_array key then
                     (case list_append fields key (VStr val) of
                        Inl e \<Rightarrow> Some (Inl e, reader1, lg)
                      | Inr fields1 \<Rightarrow> process_nested_fields field_name fields1 reader1 lg)
                   else if map_of fields key \<noteq> None then
                     Some (Inl (DuplicateKey key), reader1, lg)
                   else
                     process_nested_fields field_name
                       (AList.update key (VStr val) fields) reader1 lg))
           | _ \<Rightarrow> Some (Inl (MissingCloseBracket line), reader1, lg)))"

declare process_nested_fields.simps [code]

section \<open>The Submission Deserializer\<close>

definition InvalidLeadingMarker :: error where
  "InvalidLeadingMarker = ValueError
     ''Invalid file format, expected <SUBMISSION> or <SEC-DOCUMENT> at the start of the file''"

fun str_of_error :: "error \<Rightarrow> string" where
  "str_of_error (ValueError m) = m"
| "str_of_error (AttributeError m) = m"

text \<open>The \<^verbatim>\<open>except Exception\<close> clause: log the error, raise it again.\<close>

definition log_and_raise :: "error \<Rightarrow> string \<Rightarrow> log \<Rightarrow> fields outcome" where
  "log_and_raise e reader lg =
     (Inl e, reader, lg @ [(ERROR, ''Error processing input: '' @ str_of_error e)])"

text \<open>
  The check of the expected top-level fields. The warning formats \<^verbatim>\<open>input.name\<close>:
  a file opened with \<^verbatim>\<open>open()\<close> has a name, a \<^verbatim>\<open>StringIO\<close> has no such attribute
  and the access raises.
\<close>

fun check_expected :: "string option \<Rightarrow> fields \<Rightarrow> string list \<Rightarrow> log \<Rightarrow> error + log" where
  "check_expected name fields [] lg = Inr lg"
| "check_expected name fields (field # rest) lg =
     (if map_of fields field = None then
        (case name of
           None \<Rightarrow> Inl (AttributeError (quoted ''_io.StringIO'' @ '' object has no attribute '' @ quoted ''name''))
         | Some n \<Rightarrow>
             check_expected name fields rest
               (lg @ [(WARNING, ''Warning: top level Field '' @ quoted field
                        @ '' not found in the file: '' @ n)]))
      else check_expected name fields rest lg)"

definition deserialize :: "string option \<Rightarrow> string \<Rightarrow> log \<Rightarrow> fields outcome option" where
  "deserialize name reader lg =
     (case readline reader of (first_line, reader1) \<Rightarrow>
        if \<not> (startswith first_line ''<SUBMISSION>'' \<or> startswith first_line ''<SEC-DOCUMENT>'')
        then Some (log_and_raise InvalidLeadingMarker reader1 lg)
        else
          (case process_nested_fields ''SUBMISSION'' [] reader1 lg of
             None \<Rightarrow> None
           | Some (Inl e, reader2, lg2) \<Rightarrow> Some (log_and_raise e reader2 lg2)
           | Some (Inr fields, reader2, lg2) \<Rightarrow>
               (case check_expected name fields [''DOCUMENT'', ''FILER''] lg2 of
                  Inl e \<Rightarrow> Some (log_and_raise e reader2 lg2)
                | Inr lg3 \<Rightarrow> Some (Inr fields, reader2, lg3))))"

section \<open>Notions used in the statements\<close>

text \<open>A complete line: it ends with a newline and has no other.\<close>

definition is_line :: "string \<Rightarrow> bool" where
  "is_line l = (l \<noteq> [] \<and> last l = newline \<and> newline \<notin> set (butlast l))"

fun is_list :: "pyval \<Rightarrow> bool" where
  "is_list (VList _) = True"
| "is_list _ = False"

text \<open>In a record tree, at every nesting level, the value under a key of the
  Array-Field Policy is a list.\<close>

primrec arrays_ok :: "pyval \<Rightarrow> bool" where
  "arrays_ok (VStr s) = True"
| "arrays_ok (VList xs) = list_all id (map arrays_ok xs)"
| "arrays_ok (VDict kvs) =
     list_all (\<lambda>(k, v, ok). (if field_is_array k then is_list v else True) \<and> ok)
       (map (map_prod id (\<lambda>v. (v, arrays_ok v))) kvs)"

definition frame_ok :: "frame \<Rightarrow> bool" where
  "frame_ok fr = arrays_ok (VDict (fst fr))"

text \<open>
  The next definitions are not translated from the code. They state what the
  specification expects of a level of a tag block (sections 3 and 4.1, step 6), to be
  compared with what \<open>process_nested_fields\<close> computes. The lines of one nesting level
  are a list of items: a scalar line \<open><KEY>value\<close>, or a nested block from \<open><KEY>\<close>
  to \<open></KEY>\<close> with the items of its own level. \<open>render\<close> is the text of an item;
  \<open>value_of\<close> is the value expected for it: the trimmed string of a scalar line, the
  record of the items of a block; \<open>put\<close> is the attachment policy: under an array key
  the value is appended to the sequence (\<open>elems\<close>, empty at first), under another key
  it is set; \<open>build\<close> attaches the items of a level in their order.
\<close>

datatype item = Leaf string string | Block string "item list"

fun key_of :: "item \<Rightarrow> string" where
  "key_of (Leaf k v) = k"
| "key_of (Block k its) = k"

fun render :: "item \<Rightarrow> string" where
  "render (Leaf k v) = ''<'' @ k @ ''>'' @ v @ [newline]"
| "render (Block k its) =
     ''<'' @ k @ ''>'' @ [newline] @ concat (map render its) @ ''</'' @ k @ ''>'' @ [newline]"

definition elems :: "fields \<Rightarrow> string \<Rightarrow> pyval list" where
  "elems f k = (case map_of f k of Some (VList xs) \<Rightarrow> xs | _ \<Rightarrow> [])"

definition put :: "fields \<Rightarrow> string \<Rightarrow> pyval \<Rightarrow> fields" where
  "put f k x =
     (if field_is_array k then AList.update k (VList (elems f k @ [x])) f
      else AList.update k x f)"

fun value_of :: "item \<Rightarrow> pyval" where
  "value_of (Leaf k v) = VStr (strip v)"
| "value_of (Block k its) = VDict (foldl (\<lambda>f i. put f (key_of i) (value_of i)) [] its)"

definition build :: "fields \<Rightarrow> item list \<Rightarrow> fields" where
  "build f its = foldl (\<lambda>f i. put f (key_of i) (value_of i)) f its"

text \<open>A key as the tag lines have it: trimmed, without \<open>>\<close> or newline, not a closing
  tag, and not one of the two keys with a syntax of their own.\<close>

definition clean_key :: "string \<Rightarrow> bool" where
  "clean_key k = (strip k = k \<and> CHR ''>'' \<notin> set k \<and> newline \<notin> set k
                  \<and> \<not> startswith k ''/'' \<and> k \<noteq> ''TEXT'' \<and> k \<noteq> ''SEC-HEADER'')"

definition single_keys_distinct :: "item list \<Rightarrow> bool" where
  "single_keys_distinct its =
     distinct (filter (\<lambda>k. \<not> field_is_array k) (map key_of its))"

text \<open>A scalar line has a value, unless its key is a flag key; a block is not named by
  a flag key; at each level a key that is not an array key occurs once.\<close>

fun well_formed :: "item \<Rightarrow> bool" where
  "well_formed (Leaf k v) =
     (clean_key k \<and> newline \<notin> set v \<and> (strip v \<noteq> [] \<or> k \<in> set flag_keys))"
| "well_formed (Block k its) =
     (clean_key k \<and> k \<notin> set flag_keys \<and> list_all well_formed its \<and> single_keys_distinct its)"

text \<open>The occurrences of a key among the items of a level, in the order of the lines.\<close>

definition occurrences :: "string \<Rightarrow> item list \<Rightarrow> item list" where
  "occurrences K its = filter (\<lambda>i. key_of i = K) its"

text \<open>The values under the array keys of one record are lists.\<close>

definition top_ok :: "fields \<Rightarrow> bool" where
  "top_ok f = (\<forall>k v. field_is_array k \<longrightarrow> map_of f k = Some v \<longrightarrow> is_list v)"

definition scenario_A :: string where
  "scenario_A =
     ''<SUBMISSION>\<newline>'' @
     ''<ACCESSION-NUMBER>0000000000-24-000001\<newline>'' @
     ''<TYPE>10-K\<newline>'' @
     ''<FILER>\<newline>'' @
     ''<COMPANY-DATA>\<newline>'' @
     ''<CONFORMED-NAME>ACME CORP\<newline>'' @
     ''<CIK>0000000001\<newline>'' @
     ''</COMPANY-DATA>\<newline>'' @
     ''</FILER>\<newline>'' @
     ''</SUBMISSION>\<newline>''"

text \<open>The lines of a \<open>SEC-HEADER\<close> block with two \<open>FILER\<close> sections, each followed by
  a blank line and holding one \<open>COMPANY DATA\<close> section that ends with a blank line.\<close>

definition two_filers_header :: string where
  "two_filers_header =
     ''FILER:\<newline>'' @
     ''\<newline>'' @
     ''  COMPANY DATA:\<newline>'' @
     ''    COMPANY CONFORMED NAME: ACME CORP\<newline>'' @
     ''    CENTRAL INDEX KEY: 0000000001\<newline>'' @
     ''\<newline>'' @
     ''FILER:\<newline>'' @
     ''\<newline>'' @
     ''  COMPANY DATA:\<newline>'' @
     ''    COMPANY CONFORMED NAME: BETA INC\<newline>'' @
     ''    CENTRAL INDEX KEY: 0000000002\<newline>'' @
     ''\<newline>'' @
     ''</SEC-HEADER>\<newline>''"

section \<open>Reading lines\<close>

lemma readline_append_line:
  "newline \<notin> set b \<Longrightarrow> readline (b @ newline # rest) = (b @ [newline], rest)"
  by (induction b) auto

lemma readline_line: "is_line l \<Longrightarrow> readline (l @ rest) = (l, rest)"
proof -
  assume "is_line l"
  then have "l = butlast l @ [newline]" "newline \<notin> set (butlast l)"
    unfolding is_line_def by (metis append_butlast_last_id, simp)
  then show ?thesis using readline_append_line [of "butlast l" rest]
    by (metis append.assoc append_Cons append_Nil)
qed

lemma readlines_unfold:
  "r \<noteq> [] \<Longrightarrow> readlines r = fst (readline r) # readlines (snd (readline r))"
proof (induction r)
  case Nil
  then show ?case by simp
next
  case (Cons c cs)
  then show ?case by (cases cs) (auto split: prod.splits)
qed

lemma split1_nonempty: "split1 sep s \<noteq> []"
  by (simp add: split1_def)

lemma strip_nonempty_line: "strip line \<noteq> [] \<Longrightarrow> line \<noteq> []"
  by (auto simp: strip_def)

section \<open>One iteration of the header loop\<close>

lemma header_step:
  assumes "readline reader = (line, reader1)"
    and "strip line \<noteq> []"
    and "\<not> startswith line ''</SEC-HEADER>''"
    and "\<not> startswith line ''<ACCEPTANCE-DATETIME>''"
    and "split1 CHR '':'' line = p0 # ps"
  shows "header_loop (fields, km, label, slot) below reader lg =
     (let key = strip p0;
          val = (case ps of [] \<Rightarrow> [] | p1 # _ \<Rightarrow> strip p1)
      in case map_of km key of
           Some (Section orig_key sub) \<Rightarrow>
             (if field_is_array orig_key then
                (case list_append fields orig_key (VDict []) of
                   Inl e \<Rightarrow> Some (Inl e, reader1, lg)
                 | Inr fields1 \<Rightarrow>
                     header_loop ([], sub, key, orig_key)
                       ((fields1, km, label, slot) # below) reader1 lg)
              else
                header_loop ([], sub, key, orig_key)
                  ((AList.update orig_key (VDict []) fields, km, label, slot) # below)
                  reader1
                  (if map_of fields orig_key \<noteq> None
                   then lg @ [duplicate_warning orig_key] else lg))
         | Some (Rename orig_key) \<Rightarrow>
             (if field_is_array orig_key then
                (case list_append fields orig_key (VStr val) of
                   Inl e \<Rightarrow> Some (Inl e, reader1, lg)
                 | Inr fields1 \<Rightarrow>
                     header_loop (fields1, km, label, slot) below reader1 lg)
              else
                header_loop (AList.update orig_key (VStr val) fields, km, label, slot)
                  below reader1
                  (if map_of fields orig_key \<noteq> None
                   then lg @ [duplicate_warning orig_key] else lg))
         | None \<Rightarrow>
             header_loop (fields, km, label, slot) below reader1
               (if \<not> (key = [] \<or> val = []) \<and> key \<noteq> ''ITEM INFORMATION''
                then lg @ [unknown_warning key val label] else lg))"
  using assms strip_nonempty_line [OF assms(2)]
  by (subst header_loop.simps) simp

lemma header_acceptance:
  assumes "readline reader = (line, reader1)"
    and "startswith line ''<ACCEPTANCE-DATETIME>''"
  shows "header_loop cur below reader lg = header_loop cur below reader1 lg"
proof -
  obtain r where l: "line = ''<ACCEPTANCE-DATETIME>'' @ r"
    using assms(2) unfolding startswith_def by (metis append_take_drop_id)
  have "strip line \<noteq> []" unfolding l by (simp add: strip_def is_space_def)
  moreover have "\<not> startswith line ''</SEC-HEADER>''" unfolding l by (simp add: startswith_def)
  moreover have "line \<noteq> []" unfolding l by simp
  ultimately show ?thesis using assms
    by (subst header_loop.simps) (simp split: prod.splits)
qed

lemma header_terminator:
  assumes "readline reader = (line, reader1)"
    and "startswith line ''</SEC-HEADER>''"
  shows "header_loop cur below reader lg = Some (Inr (close_all cur below), reader1, lg)"
proof -
  obtain r where l: "line = ''</SEC-HEADER>'' @ r"
    using assms(2) unfolding startswith_def by (metis append_take_drop_id)
  have "strip line \<noteq> []" unfolding l by (simp add: strip_def is_space_def)
  moreover have "line \<noteq> []" unfolding l by simp
  ultimately show ?thesis using assms
    by (subst header_loop.simps) (simp split: prod.splits)
qed

section \<open>One iteration of the tag loop\<close>

lemma pnf_eof: "process_nested_fields field_name fields [] lg = Some (Inr fields, [], lg)"
  by (subst process_nested_fields.simps) simp

lemma pnf_stop:
  assumes "readline reader = (line, reader1)"
    and "line = [] \<or> startswith line (''</'' @ fn @ ''>'')"
  shows "process_nested_fields fn f reader lg = Some (Inr f, reader1, lg)"
  using assms by (subst process_nested_fields.simps) auto

lemma pnf_step:
  assumes "readline reader = (line, reader1)"
    and "line \<noteq> []"
    and "\<not> startswith line (''</'' @ field_name @ ''>'')"
    and "\<not> startswith line ''</SEC-DOCUMENT>''"
    and "startswith line ''<''"
    and "split1 CHR ''>'' line = p0 # p1 # ps"
    and "key = strip (tl p0)" and "val = strip p1"
  shows "process_nested_fields field_name fields reader lg =
           (if key = ''TEXT'' then
              (case read_text [] reader1 of
                 (Inl e, reader2) \<Rightarrow> Some (Inl e, reader2, lg)
               | (Inr content, reader2) \<Rightarrow>
                   process_nested_fields field_name
                     (AList.update key (VStr content) fields) reader2 lg)
            else if key = ''SEC-HEADER'' then
              (case processTxtHeader fields reader1 lg of
                 None \<Rightarrow> None
               | Some (Inl e, reader2, lg2) \<Rightarrow> Some (Inl e, reader2, lg2)
               | Some (Inr fields2, reader2, lg2) \<Rightarrow>
                   process_nested_fields field_name fields2 reader2 lg2)
            else if val = [] \<and> key \<notin> set flag_keys then
              (if field_is_array key then
                 (case list_append fields key (VDict []) of
                    Inl e \<Rightarrow> Some (Inl e, reader1, lg)
                  | Inr fields1 \<Rightarrow>
                      Option.bind (process_nested_fields key [] reader1 lg)
                        (\<lambda>r. case r of
                           (Inl e, reader2, lg2) \<Rightarrow> Some (Inl e, reader2, lg2)
                         | (Inr child, reader2, lg2) \<Rightarrow>
                             process_nested_fields field_name
                               (store_child fields1 key child) reader2 lg2))
               else if map_of fields key \<noteq> None then
                 Some (Inl (DuplicateKey key), reader1, lg)
               else
                 Option.bind (process_nested_fields key [] reader1 lg)
                   (\<lambda>r. case r of
                      (Inl e, reader2, lg2) \<Rightarrow> Some (Inl e, reader2, lg2)
                    | (Inr child, reader2, lg2) \<Rightarrow>
                        process_nested_fields field_name
                          (store_child (AList.update key (VDict []) fields) key child)
                          reader2 lg2))
            else
              (if field_is_array key then
                 (case list_append fields key (VStr val) of
                    Inl e \<Rightarrow> Some (Inl e, reader1, lg)
                  | Inr fields1 \<Rightarrow> process_nested_fields field_name fields1 reader1 lg)
               else if map_of fields key \<noteq> None then
                 Some (Inl (DuplicateKey key), reader1, lg)
               else
                 process_nested_fields field_name
                   (AList.update key (VStr val) fields) reader1 lg))"
  unfolding assms(7,8) using assms(1-6)
  by (subst process_nested_fields.simps) (simp add: Let_def)

section \<open>The raw text loop\<close>

lemma read_text_step:
  "readline reader = (line, reader1) \<Longrightarrow> line \<noteq> [] \<Longrightarrow> \<not> startswith line ''</TEXT>''
   \<Longrightarrow> read_text content reader = read_text (content @ [line]) reader1"
  by (subst read_text.simps) simp

lemma read_text_close:
  "readline reader = (line, reader1) \<Longrightarrow> startswith line ''</TEXT>''
   \<Longrightarrow> read_text content reader = (Inr (concat content), reader1)"
  by (subst read_text.simps) (auto simp: startswith_def)

lemma read_text_eof: "read_text content [] = (Inl UnterminatedRawBlock, [])"
  by (subst read_text.simps) simp

lemma read_text_lines:
  "list_all (\<lambda>l. is_line l \<and> \<not> startswith l ''</TEXT>'') ls
   \<Longrightarrow> read_text content (concat ls @ r) = read_text (content @ ls) r"
proof (induction ls arbitrary: content)
  case Nil
  then show ?case by simp
next
  case (Cons l ls)
  then have l: "is_line l" "\<not> startswith l ''</TEXT>''" by auto
  have "read_text content (l @ concat ls @ r) = read_text (content @ [l]) (concat ls @ r)"
    using l by (intro read_text_step [OF readline_line]) (auto simp: is_line_def)
  with Cons show ?case by simp
qed

lemma read_text_unterminated:
  "list_all (\<lambda>l. \<not> startswith l ''</TEXT>'') (readlines body)
   \<Longrightarrow> read_text content body = (Inl UnterminatedRawBlock, [])"
proof (induction "length body" arbitrary: body content rule: less_induct)
  case less
  show ?case
  proof (cases "body = []")
    case True
    then show ?thesis by (simp add: read_text_eof)
  next
    case False
    obtain l r where rl: "readline body = (l, r)" by (cases "readline body") auto
    from False rl have ne: "l \<noteq> []" by (cases body) (auto split: if_splits prod.splits)
    from readlines_unfold [OF False] rl have rs: "readlines body = l # readlines r" by simp
    with less.prems have nl: "\<not> startswith l ''</TEXT>''"
      and rest: "list_all (\<lambda>l. \<not> startswith l ''</TEXT>'') (readlines r)" by auto
    have "length r < length body" using readline_shorter [OF rl ne] .
    from less.hyps [OF this rest] read_text_step [OF rl ne nl] show ?thesis by simp
  qed
qed

lemma read_text_errors:
  "read_text content reader = (Inl e, r) \<Longrightarrow> e = UnterminatedRawBlock"
proof (induction content reader rule: read_text.induct)
  case (1 content reader)
  obtain line reader1 where rl: "readline reader = (line, reader1)"
    by (cases "readline reader") auto
  from 1(2) show ?case
    by (subst (asm) read_text.simps) (auto simp: rl split: if_splits dest: 1(1) [OF rl [symmetric]])
qed

lemma text_open_line:
  assumes "readline reader = (''<TEXT>'' @ v, reader1)"
  shows "process_nested_fields field_name fields reader lg =
           (case read_text [] reader1 of
              (Inl e, reader2) \<Rightarrow> Some (Inl e, reader2, lg)
            | (Inr content, reader2) \<Rightarrow>
                process_nested_fields field_name
                  (AList.update ''TEXT'' (VStr content) fields) reader2 lg)"
proof -
  have sp: "split1 CHR ''>'' (''<TEXT>'' @ v) = ''<TEXT'' # v # []"
    by (simp add: split1_def)
  have st: "''TEXT'' = strip (tl ''<TEXT'')" by (simp add: strip_def is_space_def)
  show ?thesis
    by (subst pnf_step [OF assms _ _ _ _ sp st refl])
       (simp_all add: startswith_def)
qed

section \<open>Scenario A\<close>

text \<open>The input of Scenario A read from a stream that has a name, as a file opened with
  \<^verbatim>\<open>open()\<close>: the record is the expected one, the whole input is read and one warning
  is logged, for the missing \<open>DOCUMENT\<close>.\<close>

lemma scenario_A_named_stream:
  "deserialize (Some n) scenario_A lg =
     Some (Inr [(''ACCESSION-NUMBER'', VStr ''0000000000-24-000001''),
                (''TYPE'', VStr ''10-K''),
                (''FILER'', VList [VDict [(''COMPANY-DATA'',
                   VDict [(''CONFORMED-NAME'', VStr ''ACME CORP''),
                          (''CIK'', VStr ''0000000001'')])]])],
           [],
           lg @ [(WARNING, ''Warning: top level Field '' @ quoted ''DOCUMENT''
                            @ '' not found in the file: '' @ n)])"
  unfolding scenario_A_def by code_simp

text \<open>
  Claim C1. The claim says that \<open>deserialize\<close> returns the record of Scenario A. On the
  input of Scenario A read from a \<^verbatim>\<open>StringIO\<close>, which the docstring of \<open>deserialize\<close>
  names as an input, no record is returned: the record is built, Scenario A has no
  \<open>DOCUMENT\<close>, the warning for it formats \<^verbatim>\<open>input.name\<close>, a \<^verbatim>\<open>StringIO\<close> has no such
  attribute, and the \<^verbatim>\<open>AttributeError\<close> is logged and raised.
\<close>

theorem scenario_A_unnamed_stream:
  "deserialize None scenario_A lg =
     Some (Inl (AttributeError (quoted ''_io.StringIO'' @ '' object has no attribute ''
                                  @ quoted ''name'')),
           [],
           lg @ [(ERROR, ''Error processing input: '' @ quoted ''_io.StringIO''
                           @ '' object has no attribute '' @ quoted ''name'')])"
  unfolding scenario_A_def by code_simp

section \<open>The TEXT block\<close>

text \<open>
  Claim C6. A \<open>TEXT\<close> block: the open line \<open><TEXT>\<close>, then the complete lines \<open>ls\<close>,
  none of which starts with \<open></TEXT>\<close>, then a line \<open>c\<close> that does. The raw loop returns
  the concatenation of the lines \<open>ls\<close> as they were read, newlines included, without the
  closing line; the parser stores it under \<open>TEXT\<close> and goes on after the closing line
  with that record. When the block is the last of its level, that is when the input ends
  there or the next line closes the enclosing block, the parser returns the record it
  was given with \<open>TEXT\<close> set to exactly that concatenation.
\<close>

theorem text_block_content:
  assumes "newline \<notin> set v"
    and "list_all (\<lambda>l. is_line l \<and> \<not> startswith l ''</TEXT>'') ls"
    and "readline r2 = (c, rest)"
    and "startswith c ''</TEXT>''"
  shows "read_text [] (concat ls @ r2) = (Inr (concat ls), rest)
     \<and> process_nested_fields field_name fields (''<TEXT>'' @ v @ newline # concat ls @ r2) lg
       = process_nested_fields field_name (AList.update ''TEXT'' (VStr (concat ls)) fields) rest lg
     \<and> (readline rest = (e, rest') \<and> (e = [] \<or> startswith e (''</'' @ field_name @ ''>''))
        \<longrightarrow> process_nested_fields field_name fields (''<TEXT>'' @ v @ newline # concat ls @ r2) lg
            = Some (Inr (AList.update ''TEXT'' (VStr (concat ls)) fields), rest', lg)
          \<and> map_of (AList.update ''TEXT'' (VStr (concat ls)) fields) ''TEXT''
            = Some (VStr (concat ls)))"
proof -
  have rl: "readline (''<TEXT>'' @ v @ newline # concat ls @ r2)
          = (''<TEXT>'' @ (v @ [newline]), concat ls @ r2)"
    using readline_append_line [of "''<TEXT>'' @ v" "concat ls @ r2"] assms(1)
    by (simp add: newline_def)
  have "read_text [] (concat ls @ r2) = read_text ls r2"
    using read_text_lines [OF assms(2), of "[]" r2] by simp
  also have "\<dots> = (Inr (concat ls), rest)"
    by (rule read_text_close [OF assms(3,4)])
  finally have rt: "read_text [] (concat ls @ r2) = (Inr (concat ls), rest)" .
  have go: "process_nested_fields field_name fields (''<TEXT>'' @ v @ newline # concat ls @ r2) lg
       = process_nested_fields field_name (AList.update ''TEXT'' (VStr (concat ls)) fields) rest lg"
    using text_open_line [OF rl, of field_name fields lg] rt by simp
  have stop: "process_nested_fields field_name fields (''<TEXT>'' @ v @ newline # concat ls @ r2) lg
            = Some (Inr (AList.update ''TEXT'' (VStr (concat ls)) fields), rest', lg)"
    if "readline rest = (e, rest') \<and> (e = [] \<or> startswith e (''</'' @ field_name @ ''>''))"
    using that go pnf_stop [of rest e rest' field_name] by simp
  have m: "map_of (AList.update ''TEXT'' (VStr (concat ls)) fields) ''TEXT'' = Some (VStr (concat ls))"
    by (simp add: update_conv')
  from rt go stop m show ?thesis by blast
qed

theorem text_block_content_witness:
  "read_text [] ''first line \<newline>  second line\<newline></TEXT>\<newline></DOCUMENT>\<newline>''
     = (Inr ''first line \<newline>  second line\<newline>'', ''</DOCUMENT>\<newline>'')
   \<and> process_nested_fields ''DOCUMENT'' [(''TYPE'', VStr ''10-K'')]
        ''<TEXT>\<newline>first line \<newline>  second line\<newline></TEXT>\<newline></DOCUMENT>\<newline>'' []
     = Some (Inr [(''TYPE'', VStr ''10-K''),
                  (''TEXT'', VStr ''first line \<newline>  second line\<newline>'')], [], [])"
  using text_block_content [where v = "[]"
      and ls = "[''first line \<newline>'', ''  second line\<newline>'']"
      and ?r2.0 = "''</TEXT>\<newline></DOCUMENT>\<newline>''" and c = "''</TEXT>\<newline>''"
      and rest = "''</DOCUMENT>\<newline>''" and e = "''</DOCUMENT>\<newline>''" and rest' = "[]"
      and field_name = "''DOCUMENT''" and fields = "[(''TYPE'', VStr ''10-K'')]" and lg = "[]"]
  by (auto simp: is_line_def newline_def startswith_def)

text \<open>
  Claim C7. At the end of the input the tag loop returns the record it has, and the
  input is exhausted. When the next line is a \<open><TEXT>\<close> open line and no line of the
  rest of the input starts with \<open></TEXT>\<close>, the parser raises the error of the
  unterminated raw block.
\<close>

theorem end_of_input_asymmetry:
  "process_nested_fields field_name fields [] lg = Some (Inr fields, [], lg)
   \<and> (readline reader = (''<TEXT>'' @ v, body)
        \<and> list_all (\<lambda>l. \<not> startswith l ''</TEXT>'') (readlines body)
      \<longrightarrow> process_nested_fields field_name fields reader lg
            = Some (Inl UnterminatedRawBlock, [], lg))"
proof (intro conjI impI)
  show "process_nested_fields field_name fields [] lg = Some (Inr fields, [], lg)"
    by (rule pnf_eof)
next
  assume h: "readline reader = (''<TEXT>'' @ v, body)
        \<and> list_all (\<lambda>l. \<not> startswith l ''</TEXT>'') (readlines body)"
  then have rl: "readline reader = (''<TEXT>'' @ v, body)"
    and un: "read_text [] body = (Inl UnterminatedRawBlock, [])"
    by (auto intro: read_text_unterminated)
  show "process_nested_fields field_name fields reader lg
            = Some (Inl UnterminatedRawBlock, [], lg)"
    by (simp add: text_open_line [OF rl] un)
qed

theorem end_of_input_asymmetry_witness:
  "process_nested_fields ''DOCUMENT'' [(''TYPE'', VStr ''10-K'')] [] []
     = Some (Inr [(''TYPE'', VStr ''10-K'')], [], [])
   \<and> process_nested_fields ''DOCUMENT'' [(''TYPE'', VStr ''10-K'')]
       ''<TEXT>\<newline>some text\<newline>and more'' []
     = Some (Inl UnterminatedRawBlock, [], [])"
  using end_of_input_asymmetry [of "''DOCUMENT''" "[(''TYPE'', VStr ''10-K'')]" "[]"
          "''<TEXT>\<newline>some text\<newline>and more''" "''\<newline>''" "''some text\<newline>and more''"]
  by (simp add: newline_def startswith_def)

section \<open>The header parser at the end of the input\<close>

lemma header_loop_needs_input:
  assumes "header_loop cur below reader lg = Some y"
  shows "reader \<noteq> []"
proof (rule header_loop.raw_induct [where P = "\<lambda>cur below reader lg y. reader \<noteq> []", OF _ assms],
       goal_cases)
  case (1 f cur below reader lg y)
  show ?case
  proof
    assume "reader = []"
    with 1(2) have "f (attach_back cur (hd below)) (tl below) [] lg = Some y
                  \<or> f cur below [] lg = Some y"
      by (auto split: prod.splits if_splits)
    with 1(1) show False by blast
  qed
qed

lemma header_loop_eof: "header_loop cur below [] lg = None"
  using header_loop_needs_input [of cur below "[]" lg] by (cases "header_loop cur below [] lg") auto

lemma sec_header_open_line:
  assumes "readline reader = (''<SEC-HEADER>'' @ v, reader1)"
  shows "process_nested_fields field_name fields reader lg =
           (case processTxtHeader fields reader1 lg of
              None \<Rightarrow> None
            | Some (Inl e, reader2, lg2) \<Rightarrow> Some (Inl e, reader2, lg2)
            | Some (Inr fields2, reader2, lg2) \<Rightarrow>
                process_nested_fields field_name fields2 reader2 lg2)"
proof -
  have sp: "split1 CHR ''>'' (''<SEC-HEADER>'' @ v) = ''<SEC-HEADER'' # v # []"
    by (simp add: split1_def)
  have st: "''SEC-HEADER'' = strip (tl ''<SEC-HEADER'')" by (simp add: strip_def is_space_def)
  show ?thesis
    by (subst pnf_step [OF assms _ _ _ _ sp st refl])
       (simp_all add: startswith_def)
qed

text \<open>
  Claim C4. The claim says that the header parser returns to its caller at the end of
  the input. The code does not: once the input is exhausted \<^verbatim>\<open>readline()\<close> returns the
  empty string for ever, the branch for it only pops a frame and continues, and the
  loop never ends. So on an input that ends inside a \<open>SEC-HEADER\<close> block neither
  \<open>processTxtHeader\<close> nor its callers return.
\<close>

theorem header_hangs_at_end_of_input:
  "processTxtHeader fields [] lg = None
   \<and> process_nested_fields field_name fields ''<SEC-HEADER>\<newline>'' lg = None
   \<and> deserialize name ''<SUBMISSION>\<newline><SEC-HEADER>\<newline>'' lg = None"
proof (intro conjI)
  show h: "processTxtHeader fields [] lg = None" for fields
    by (simp add: processTxtHeader_def header_loop_eof)
  have rl: "readline ''<SEC-HEADER>\<newline>'' = (''<SEC-HEADER>'' @ ''\<newline>'', [])"
    by (simp add: newline_def)
  show p: "process_nested_fields field_name fields ''<SEC-HEADER>\<newline>'' lg = None"
    for field_name fields
    by (simp add: sec_header_open_line [OF rl] h)
  show "deserialize name ''<SUBMISSION>\<newline><SEC-HEADER>\<newline>'' lg = None"
    by (simp add: deserialize_def newline_def startswith_def p)
qed

text \<open>More generally, the header parser returns normally only after it has read a line
  that starts with \<open></SEC-HEADER>\<close>.\<close>

lemma header_needs_terminator:
  assumes "header_loop cur below reader lg = Some y"
  shows "list_all (\<lambda>l. \<not> startswith l ''</SEC-HEADER>'') (readlines reader)
         \<longrightarrow> (\<forall>f'. fst y \<noteq> Inr f')"
proof (rule header_loop.raw_induct
         [where P = "\<lambda>cur below reader lg y.
            list_all (\<lambda>l. \<not> startswith l ''</SEC-HEADER>'') (readlines reader)
            \<longrightarrow> (\<forall>f'. fst y \<noteq> Inr f')", OF _ assms], goal_cases)
  case (1 f cur below reader lg y)
  obtain fields km label slot where cur: "cur = (fields, km, label, slot)" by (cases cur) auto
  obtain line reader1 where rl: "readline reader = (line, reader1)" by (cases "readline reader") auto
  obtain p0 ps where sp: "split1 CHR '':'' line = p0 # ps"
    using split1_nonempty by (cases "split1 CHR '':'' line") auto
  show ?case
  proof (intro impI allI)
    fix f'
    assume nt: "list_all (\<lambda>l. \<not> startswith l ''</SEC-HEADER>'') (readlines reader)"
    have r1: "list_all (\<lambda>l. \<not> startswith l ''</SEC-HEADER>'') (readlines reader1)"
    proof (cases "reader = []")
      case True
      with rl nt show ?thesis by simp
    next
      case False
      from readlines_unfold [OF False] rl nt show ?thesis by simp
    qed
    have ln: "line \<noteq> [] \<Longrightarrow> \<not> startswith line ''</SEC-HEADER>''"
    proof -
      assume "line \<noteq> []"
      with rl have "reader \<noteq> []" by auto
      from readlines_unfold [OF this] rl nt show ?thesis by simp
    qed
    have IH: "\<And>c b l. f c b reader1 l = Some y \<Longrightarrow> fst y \<noteq> Inr f'"
      using 1(1) r1 by blast
    from 1(2) ln show "fst y \<noteq> Inr f'"
      by (auto simp: cur rl sp Let_def
               split: if_splits option.splits remap.splits sum.splits
               dest!: IH)
  qed
qed

text \<open>And it does return, normally or with an error, when the input has such a line:
  every other line is consumed by one iteration.\<close>

lemma header_blank:
  assumes "readline reader = (line, reader1)" "strip line = []"
  shows "header_loop (fields, km, label, slot) below reader lg =
           (if fields \<noteq> [] \<and> below \<noteq> []
            then header_loop (attach_back (fields, km, label, slot) (hd below)) (tl below) reader1 lg
            else header_loop (fields, km, label, slot) below reader1 lg)"
  using assms by (subst header_loop.simps) simp

lemma header_lookup_returns:
  assumes rl: "readline reader = (line, reader1)"
    and IH: "\<And>c b l. header_loop c b reader1 l \<noteq> None"
    and nb: "strip line \<noteq> []" and nt: "\<not> startswith line ''</SEC-HEADER>''"
    and na: "\<not> startswith line ''<ACCEPTANCE-DATETIME>''"
    and sp: "split1 CHR '':'' line = p0 # ps"
  shows "header_loop (fields, km, label, slot) below reader lg \<noteq> None"
proof -
  have IH': "\<And>c b l. \<exists>a aa ba. header_loop c b reader1 l = Some (a, aa, ba)"
    using IH by (metis not_None_eq prod_cases3)
  show ?thesis
  proof (cases "map_of km (strip p0)")
  case None
  then show ?thesis
    by (subst header_step [OF rl nb nt na sp]) (simp add: Let_def IH')
next
  case (Some e)
  show ?thesis
  proof (cases e)
    case (Rename k)
    show ?thesis
    proof (cases "list_append fields k (VStr (case ps of [] \<Rightarrow> [] | p1 # _ \<Rightarrow> strip p1))")
      case (Inl err)
      with Some Rename show ?thesis
        by (subst header_step [OF rl nb nt na sp]) (simp add: Let_def IH')
    next
      case (Inr f1)
      with Some Rename show ?thesis
        by (subst header_step [OF rl nb nt na sp]) (simp add: Let_def IH')
    qed
  next
    case (Section k sub)
    show ?thesis
    proof (cases "list_append fields k (VDict [])")
      case (Inl err)
      with Some Section show ?thesis
        by (subst header_step [OF rl nb nt na sp]) (simp add: Let_def IH')
    next
      case (Inr f1)
      with Some Section show ?thesis
        by (subst header_step [OF rl nb nt na sp]) (simp add: Let_def IH')
    qed
  qed
qed
qed


lemma header_returns_with_terminator:
  "list_ex (\<lambda>l. startswith l ''</SEC-HEADER>'') (readlines reader)
   \<Longrightarrow> header_loop cur below reader lg \<noteq> None"
proof (induction "length reader" arbitrary: reader cur below lg rule: less_induct)
  case less
  from less.prems have ne: "reader \<noteq> []" by auto
  obtain line reader1 where rl: "readline reader = (line, reader1)"
    by (cases "readline reader") auto
  from ne rl have ln: "line \<noteq> []" by (cases reader) (auto split: if_splits prod.splits)
  from readlines_unfold [OF ne] rl have rs: "readlines reader = line # readlines reader1" by simp
  have shorter: "length reader1 < length reader" by (rule readline_shorter [OF rl ln])
  obtain fields km label slot where cur: "cur = (fields, km, label, slot)" by (cases cur) auto
  show ?case
  proof (cases "startswith line ''</SEC-HEADER>''")
    case True
    from header_terminator [OF rl True] show ?thesis by simp
  next
    case nt: False
    with less.prems rs have "list_ex (\<lambda>l. startswith l ''</SEC-HEADER>'') (readlines reader1)"
      by simp
    from less.hyps [OF shorter this]
    have IH: "\<And>c b l. header_loop c b reader1 l \<noteq> None" by blast
    show ?thesis
    proof (cases "strip line = []")
      case True
      show ?thesis unfolding cur header_blank [OF rl True]
        using IH by (simp del: not_None_eq)
    next
      case nb: False
      show ?thesis
      proof (cases "startswith line ''<ACCEPTANCE-DATETIME>''")
        case True
        show ?thesis unfolding header_acceptance [OF rl True] by (rule IH)
      next
        case na: False
        obtain p0 ps where sp: "split1 CHR '':'' line = p0 # ps"
          using split1_nonempty by (cases "split1 CHR '':'' line") auto
        show ?thesis
          unfolding cur by (rule header_lookup_returns [OF rl IH nb nt na sp])
      qed
    qed
  qed
qed

section \<open>The errors of the parsers\<close>

lemma list_append_error:
  "list_append fields key x = Inl e \<Longrightarrow> \<exists>m. e = AttributeError m"
  by (auto simp: list_append_def split: option.splits pyval.splits)

lemma header_loop_errors:
  assumes "header_loop cur below reader lg = Some y"
  shows "\<forall>m. fst y \<noteq> Inl (ValueError m)"
proof (rule header_loop.raw_induct [where P = "\<lambda>cur below reader lg y. \<forall>m. fst y \<noteq> Inl (ValueError m)", OF _ assms],
       goal_cases)
  case (1 f cur below reader lg y)
  obtain fields km label slot where cur: "cur = (fields, km, label, slot)" by (cases cur) auto
  obtain line reader1 where rl: "readline reader = (line, reader1)" by (cases "readline reader") auto
  obtain p0 ps where sp: "split1 CHR '':'' line = p0 # ps"
    using split1_nonempty by (cases "split1 CHR '':'' line") auto
  from 1(2) show ?case
    by (auto simp: cur rl sp Let_def split: if_splits option.splits remap.splits sum.splits
             dest: 1(1) list_append_error)
qed

lemma leading_marker_distinct:
  "MissingOpenBracket l \<noteq> InvalidLeadingMarker"
  "MissingCloseBracket l \<noteq> InvalidLeadingMarker"
  "UnterminatedRawBlock \<noteq> InvalidLeadingMarker"
  "DuplicateKey k \<noteq> InvalidLeadingMarker"
  "AttributeError m \<noteq> InvalidLeadingMarker"
  by (simp_all add: MissingOpenBracket_def MissingCloseBracket_def UnterminatedRawBlock_def
        DuplicateKey_def InvalidLeadingMarker_def)

lemma pnf_not_leading_marker:
  assumes "process_nested_fields field_name fields reader lg = Some y"
  shows "fst y \<noteq> Inl InvalidLeadingMarker"
proof (rule process_nested_fields.raw_induct
         [where P = "\<lambda>field_name fields reader lg y. fst y \<noteq> Inl InvalidLeadingMarker",
          OF _ assms], goal_cases)
  case (1 f field_name fields reader lg y)
  obtain line reader1 where rl: "readline reader = (line, reader1)"
    by (cases "readline reader") auto
  have hd: "\<And>r. processTxtHeader fields reader1 lg = Some r \<Longrightarrow> fst r \<noteq> Inl InvalidLeadingMarker"
    using header_loop_errors unfolding processTxtHeader_def InvalidLeadingMarker_def by blast
  from 1(2) show ?case
    by (auto simp: rl Let_def leading_marker_distinct
             split: if_splits list.splits prod.splits sum.splits option.splits Option.bind_splits
             dest: 1(1) list_append_error read_text_errors hd)
qed

lemma check_expected_error:
  "check_expected name fields xs lg = Inl e \<Longrightarrow> \<exists>m. e = AttributeError m"
  by (induction xs arbitrary: lg) (auto split: if_splits option.splits)

text \<open>
  Claim C8. \<open>deserialize\<close> raises the error of the invalid leading marker exactly when
  the first line of the input starts neither with \<open><SUBMISSION>\<close> nor with
  \<open><SEC-DOCUMENT>\<close>. When it starts with one of them, the result is that of the tag
  parser on the rest of the input, for the block \<open>SUBMISSION\<close> and an empty record,
  followed by the check of the expected fields.
\<close>

theorem leading_marker_iff:
  "((\<exists>r l. deserialize name reader lg = Some (Inl InvalidLeadingMarker, r, l))
      \<longleftrightarrow> \<not> (startswith (fst (readline reader)) ''<SUBMISSION>''
              \<or> startswith (fst (readline reader)) ''<SEC-DOCUMENT>''))
   \<and> (startswith (fst (readline reader)) ''<SUBMISSION>''
        \<or> startswith (fst (readline reader)) ''<SEC-DOCUMENT>''
      \<longrightarrow> deserialize name reader lg =
           (case process_nested_fields ''SUBMISSION'' [] (snd (readline reader)) lg of
              None \<Rightarrow> None
            | Some (Inl e, reader2, lg2) \<Rightarrow> Some (log_and_raise e reader2 lg2)
            | Some (Inr fields, reader2, lg2) \<Rightarrow>
                (case check_expected name fields [''DOCUMENT'', ''FILER''] lg2 of
                   Inl e \<Rightarrow> Some (log_and_raise e reader2 lg2)
                 | Inr lg3 \<Rightarrow> Some (Inr fields, reader2, lg3))))"
proof -
  obtain first_line reader1 where rl: "readline reader = (first_line, reader1)"
    by (cases "readline reader") auto
  let ?marker = "startswith first_line ''<SUBMISSION>'' \<or> startswith first_line ''<SEC-DOCUMENT>''"
  have bad: "\<not> ?marker \<Longrightarrow> deserialize name reader lg
               = Some (log_and_raise InvalidLeadingMarker reader1 lg)"
    by (simp add: deserialize_def rl)
  have good: "?marker \<Longrightarrow> deserialize name reader lg =
           (case process_nested_fields ''SUBMISSION'' [] reader1 lg of
              None \<Rightarrow> None
            | Some (Inl e, reader2, lg2) \<Rightarrow> Some (log_and_raise e reader2 lg2)
            | Some (Inr fields, reader2, lg2) \<Rightarrow>
                (case check_expected name fields [''DOCUMENT'', ''FILER''] lg2 of
                   Inl e \<Rightarrow> Some (log_and_raise e reader2 lg2)
                 | Inr lg3 \<Rightarrow> Some (Inr fields, reader2, lg3)))"
    by (auto simp: deserialize_def rl)
  have no: "?marker \<Longrightarrow> deserialize name reader lg \<noteq> Some (Inl InvalidLeadingMarker, r, l)" for r l
  proof
    assume m: ?marker and d: "deserialize name reader lg = Some (Inl InvalidLeadingMarker, r, l)"
    show False
    proof (cases "process_nested_fields ''SUBMISSION'' [] reader1 lg")
      case None
      with good [OF m] d show ?thesis by simp
    next
      case (Some y)
      obtain res r2 l2 where y: "y = (res, r2, l2)" by (cases y) auto
      from pnf_not_leading_marker [OF Some] y have ne: "res \<noteq> Inl InvalidLeadingMarker" by simp
      show ?thesis
      proof (cases res)
        case (Inl e)
        with good [OF m] d Some y ne show ?thesis by (simp add: log_and_raise_def)
      next
        case (Inr fs)
        show ?thesis
        proof (cases "check_expected name fs [''DOCUMENT'', ''FILER''] l2")
          case (Inl e)
          from check_expected_error [OF Inl] obtain msg where "e = AttributeError msg" by blast
          with good [OF m] d Some y Inr Inl show ?thesis
            by (simp add: log_and_raise_def InvalidLeadingMarker_def del: check_expected.simps)
        next
          case (Inr l3)
          with good [OF m] d Some y \<open>res = Inr fs\<close> show ?thesis
            by (simp del: check_expected.simps)
        qed
      qed
    qed
  qed
  have iff: "(\<exists>r l. deserialize name reader lg = Some (Inl InvalidLeadingMarker, r, l))
               \<longleftrightarrow> \<not> ?marker"
  proof (cases ?marker)
    case True
    with no show ?thesis by blast
  next
    case False
    with bad show ?thesis by (simp add: log_and_raise_def)
  qed
  show ?thesis
    unfolding rl fst_conv snd_conv using iff good by blast
qed

theorem leading_marker_iff_witness:
  "(\<exists>r l. deserialize None ''<DOCUMENT>\<newline><TYPE>10-K\<newline>'' [] = Some (Inl InvalidLeadingMarker, r, l))
   \<and> deserialize None ''<SEC-DOCUMENT>0001.txt : 2024\<newline><TYPE>10-K\<newline>'' [] =
       (case process_nested_fields ''SUBMISSION'' [] ''<TYPE>10-K\<newline>'' [] of
              None \<Rightarrow> None
            | Some (Inl e, reader2, lg2) \<Rightarrow> Some (log_and_raise e reader2 lg2)
            | Some (Inr fields, reader2, lg2) \<Rightarrow>
                (case check_expected None fields [''DOCUMENT'', ''FILER''] lg2 of
                   Inl e \<Rightarrow> Some (log_and_raise e reader2 lg2)
                 | Inr lg3 \<Rightarrow> Some (Inr fields, reader2, lg3)))"
  using leading_marker_iff [of None "''<DOCUMENT>\<newline><TYPE>10-K\<newline>''" "[]"]
        leading_marker_iff [of None "''<SEC-DOCUMENT>0001.txt : 2024\<newline><TYPE>10-K\<newline>''" "[]"]
  by (simp add: newline_def startswith_def)

section \<open>Lines of the header\<close>

text \<open>
  Claim C9. When the root scope of a \<open>SEC-HEADER\<close> block is active and the next line
  is \<open>FILED AS OF DATE:20240101\<close>, the parser stores the string \<open>20240101\<close> under
  \<open>FILING-DATE\<close> in the record of the caller and goes on with the next line; when the
  block ends right after, the record returned to the caller has it.
\<close>

theorem filed_as_of_date:
  "header_loop (fields, KEY_MAP, [], []) [] (''FILED AS OF DATE:20240101\<newline>'' @ rest) lg
     = header_loop (AList.update ''FILING-DATE'' (VStr ''20240101'') fields, KEY_MAP, [], []) []
         rest (if map_of fields ''FILING-DATE'' \<noteq> None
               then lg @ [duplicate_warning ''FILING-DATE''] else lg)
   \<and> processTxtHeader fields
         (''FILED AS OF DATE:20240101\<newline></SEC-HEADER>\<newline>'' @ rest) lg
     = Some (Inr (AList.update ''FILING-DATE'' (VStr ''20240101'') fields), rest,
             if map_of fields ''FILING-DATE'' \<noteq> None
             then lg @ [duplicate_warning ''FILING-DATE''] else lg)
   \<and> map_of (AList.update ''FILING-DATE'' (VStr ''20240101'') fields) ''FILING-DATE''
     = Some (VStr ''20240101'')"
proof -
  have rl: "readline (''FILED AS OF DATE:20240101\<newline>'' @ r)
              = (''FILED AS OF DATE:20240101\<newline>'', r)" for r
    by (simp add: newline_def)
  have step: "header_loop (fields, KEY_MAP, [], []) [] (''FILED AS OF DATE:20240101\<newline>'' @ r) lg
     = header_loop (AList.update ''FILING-DATE'' (VStr ''20240101'') fields, KEY_MAP, [], []) []
         r (if map_of fields ''FILING-DATE'' \<noteq> None
               then lg @ [duplicate_warning ''FILING-DATE''] else lg)" for r
    by (subst header_step [OF rl, where ?p0.0 = "''FILED AS OF DATE''" and ps = "[''20240101\<newline>'']"])
       (simp_all add: strip_def is_space_def startswith_def split1_def KEY_MAP_def field_is_array_def)
  have tl: "readline (''</SEC-HEADER>\<newline>'' @ rest) = (''</SEC-HEADER>\<newline>'', rest)"
    by (simp add: newline_def)
  have fin: "header_loop cur [] (''</SEC-HEADER>\<newline>'' @ rest) l
               = Some (Inr (fst cur), rest, l)" for cur l
    by (subst header_terminator [OF tl]) (simp_all add: startswith_def)
  have "processTxtHeader fields
         (''FILED AS OF DATE:20240101\<newline>'' @ ''</SEC-HEADER>\<newline>'' @ rest) lg
     = Some (Inr (AList.update ''FILING-DATE'' (VStr ''20240101'') fields), rest,
             if map_of fields ''FILING-DATE'' \<noteq> None
             then lg @ [duplicate_warning ''FILING-DATE''] else lg)"
    unfolding processTxtHeader_def step fin by simp
  then show ?thesis using step [of rest] by (simp add: update_conv')
qed

text \<open>
  Claim C10. A header line that starts with \<open><ACCEPTANCE-DATETIME>\<close>, or whose trimmed
  key (the text before the first colon) is not in the table of the active scope, changes
  no record: the parser goes on with the next line, with the same stack of frames, and
  has logged at most one record, a warning.
\<close>

theorem header_unknown_key_frame:
  assumes "readline reader = (line, reader1)"
    and "strip line \<noteq> []"
    and "\<not> startswith line ''</SEC-HEADER>''"
    and "startswith line ''<ACCEPTANCE-DATETIME>''
         \<or> map_of km (strip (hd (split1 CHR '':'' line))) = None"
  shows "\<exists>w. length w \<le> 1 \<and> list_all (\<lambda>e. fst e = WARNING) w
           \<and> header_loop (fields, km, label, slot) below reader lg
             = header_loop (fields, km, label, slot) below reader1 (lg @ w)"
proof (cases "startswith line ''<ACCEPTANCE-DATETIME>''")
  case True
  have "header_loop (fields, km, label, slot) below reader lg
      = header_loop (fields, km, label, slot) below reader1 (lg @ [])"
    using header_acceptance [OF assms(1) True] by simp
  then show ?thesis by (intro exI [of _ "[]"]) simp
next
  case False
  obtain p0 ps where sp: "split1 CHR '':'' line = p0 # ps"
    using split1_nonempty by (cases "split1 CHR '':'' line") auto
  with assms(4) False have nf: "map_of km (strip p0) = None" by simp
  let ?val = "case ps of [] \<Rightarrow> [] | p1 # _ \<Rightarrow> strip p1"
  let ?w = "if \<not> (strip p0 = [] \<or> ?val = []) \<and> strip p0 \<noteq> ''ITEM INFORMATION''
            then [unknown_warning (strip p0) ?val label] else []"
  have "header_loop (fields, km, label, slot) below reader lg
      = header_loop (fields, km, label, slot) below reader1 (lg @ ?w)"
    using header_step [OF assms(1) assms(2) assms(3) False sp] nf
    by (simp add: Let_def)
  moreover have "length ?w \<le> 1" by simp
  moreover have "list_all (\<lambda>e. fst e = WARNING) ?w" by (simp add: unknown_warning_def)
  ultimately show ?thesis by blast
qed

theorem header_unknown_key_frame_witness:
  "\<exists>w. length w \<le> 1 \<and> list_all (\<lambda>e. fst e = WARNING) w
     \<and> header_loop ([(''TYPE'', VStr ''10-K'')], KEY_MAP, [], []) []
          (''SROS: NYSE\<newline></SEC-HEADER>\<newline>'') []
       = header_loop ([(''TYPE'', VStr ''10-K'')], KEY_MAP, [], []) []
          (''</SEC-HEADER>\<newline>'') ([] @ w)"
  by (rule header_unknown_key_frame [where line = "''SROS: NYSE\<newline>''"])
     (simp_all add: newline_def strip_def is_space_def startswith_def split1_def KEY_MAP_def)

text \<open>The header loop raises no error of the missing colon, whatever the input:
  \<^verbatim>\<open>line.split(':', 1)\<close> never returns an empty list, so the guard
  \<^verbatim>\<open>len(parts) == 0\<close> never holds. A line without a colon is taken whole as the key,
  with the empty string as value; when the trimmed line is not a key of the active
  scope, the loop goes on with the next line, without a warning.\<close>

lemma missing_colon_never_raised:
  "header_loop cur below reader lg \<noteq> Some (Inl (MissingColonDelimiter l), r, lg')"
  using header_loop_errors [of cur below reader lg] by (auto simp: MissingColonDelimiter_def)

lemma missing_colon_line_skipped:
  assumes "readline reader = (line, reader1)" "strip line \<noteq> []"
    "\<not> startswith line ''</SEC-HEADER>''" "\<not> startswith line ''<ACCEPTANCE-DATETIME>''"
    "CHR '':'' \<notin> set line" "map_of km (strip line) = None"
  shows "header_loop (fields, km, label, slot) below reader lg
         = header_loop (fields, km, label, slot) below reader1 lg"
proof -
  from assms(5) have sp: "split1 CHR '':'' line = line # []" by (simp add: split1_def)
  from assms(6) show ?thesis
    by (subst header_step [OF assms(1-4) sp]) auto
qed

text \<open>
  Claim C5. The claim says that a header line without a colon makes the header parser
  fail with the error of the missing colon. The code has the \<^verbatim>\<open>raise\<close> for it, under
  the guard \<^verbatim>\<open>len(parts) == 0\<close>, which \<^verbatim>\<open>split(':', 1)\<close> never satisfies; the tag
  parser guards its own \<^verbatim>\<open>raise\<close> for a line without \<open>>\<close> with \<^verbatim>\<open>len(parts) < 2\<close>. So on
  the header line \<open>NO COLON HERE\<close> the header parser returns normally, with nothing
  stored and nothing logged, and \<open>deserialize\<close> returns a record, while the tag parser
  raises on a line without \<open>>\<close>.
\<close>

theorem missing_colon_not_rejected:
  "CHR '':'' \<notin> set ''NO COLON HERE\<newline>''
   \<and> processTxtHeader [] ''NO COLON HERE\<newline></SEC-HEADER>\<newline>'' lg = Some (Inr [], [], lg)
   \<and> deserialize (Some n)
        ''<SUBMISSION>\<newline><SEC-HEADER>\<newline>NO COLON HERE\<newline></SEC-HEADER>\<newline>'' lg
     = Some (Inr [], [],
             lg @ [(WARNING, ''Warning: top level Field '' @ quoted ''DOCUMENT''
                              @ '' not found in the file: '' @ n),
                   (WARNING, ''Warning: top level Field '' @ quoted ''FILER''
                              @ '' not found in the file: '' @ n)])
   \<and> process_nested_fields ''SUBMISSION'' [] ''<NO BRACKET HERE\<newline>'' lg
     = Some (Inl (MissingCloseBracket ''<NO BRACKET HERE\<newline>''), [], lg)"
proof -
  have "deserialize (Some n)
        ''<SUBMISSION>\<newline><SEC-HEADER>\<newline>NO COLON HERE\<newline></SEC-HEADER>\<newline>'' lg
     = Some (Inr [], [],
             (lg @ [(WARNING, ''Warning: top level Field '' @ quoted ''DOCUMENT''
                              @ '' not found in the file: '' @ n)])
                 @ [(WARNING, ''Warning: top level Field '' @ quoted ''FILER''
                              @ '' not found in the file: '' @ n)])"
    by code_simp
  moreover have "CHR '':'' \<notin> set ''NO COLON HERE\<newline>''
     \<and> processTxtHeader [] ''NO COLON HERE\<newline></SEC-HEADER>\<newline>'' lg = Some (Inr [], [], lg)
     \<and> process_nested_fields ''SUBMISSION'' [] ''<NO BRACKET HERE\<newline>'' lg
       = Some (Inl (MissingCloseBracket ''<NO BRACKET HERE\<newline>''), [], lg)"
    by code_simp
  ultimately show ?thesis by simp
qed

section \<open>Duplicate keys\<close>

lemma tag_duplicate:
  assumes "readline reader = (line, reader1)" "line \<noteq> []"
    "\<not> startswith line (''</'' @ field_name @ ''>'')" "\<not> startswith line ''</SEC-DOCUMENT>''"
    "startswith line ''<''" "split1 CHR ''>'' line = p0 # p1 # ps"
    "strip (tl p0) \<noteq> ''TEXT''" "strip (tl p0) \<noteq> ''SEC-HEADER''"
    "\<not> field_is_array (strip (tl p0))" "map_of fields (strip (tl p0)) \<noteq> None"
  shows "process_nested_fields field_name fields reader lg
          = Some (Inl (DuplicateKey (strip (tl p0))), reader1, lg)"
  using assms(7-10)
  by (subst pnf_step [OF assms(1-6) refl refl]) auto

lemma header_duplicate_rename:
  assumes "readline reader = (line, reader1)" "strip line \<noteq> []"
    "\<not> startswith line ''</SEC-HEADER>''" "\<not> startswith line ''<ACCEPTANCE-DATETIME>''"
    "split1 CHR '':'' line = q0 # qs"
    "\<not> field_is_array orig_key" "map_of fields orig_key \<noteq> None"
    "map_of km (strip q0) = Some (Rename orig_key)"
  shows "header_loop (fields, km, label, slot) below reader lg
         = header_loop
             (AList.update orig_key (VStr (case qs of [] \<Rightarrow> [] | q1 # _ \<Rightarrow> strip q1)) fields,
              km, label, slot)
             below reader1 (lg @ [duplicate_warning orig_key])"
  using assms(6-8)
  by (subst header_step [OF assms(1-5)]) (auto simp: Let_def)

lemma header_duplicate_section:
  assumes "readline reader = (line, reader1)" "strip line \<noteq> []"
    "\<not> startswith line ''</SEC-HEADER>''" "\<not> startswith line ''<ACCEPTANCE-DATETIME>''"
    "split1 CHR '':'' line = q0 # qs"
    "\<not> field_is_array orig_key" "map_of fields orig_key \<noteq> None"
    "map_of km (strip q0) = Some (Section orig_key sub)"
  shows "header_loop (fields, km, label, slot) below reader lg
         = header_loop ([], sub, strip q0, orig_key)
             ((AList.update orig_key (VDict []) fields, km, label, slot) # below)
             reader1 (lg @ [duplicate_warning orig_key])"
  using assms(6-8)
  by (subst header_step [OF assms(1-5)]) (auto simp: Let_def)

text \<open>In the header parser a second value for a key that is not an array key is stored
  over the first, with one warning.\<close>

lemma header_duplicate_overwrites:
  "processTxtHeader [(''TYPE'', VStr ''10-K'')]
     ''CONFORMED SUBMISSION TYPE: 8-K\<newline></SEC-HEADER>\<newline>'' lg
   = Some (Inr [(''TYPE'', VStr ''8-K'')], [], lg @ [duplicate_warning ''TYPE''])"
  by code_simp

text \<open>
  Claim C3. The claim says that in the tag parser a second occurrence of a key that is
  not an array key, at the same level, raises the error of the duplicate key. The two
  branches that store a nested block and a scalar value check \<^verbatim>\<open>if key in fields\<close> and
  raise; the branch of \<open>TEXT\<close>, which is not an array key, stores
  \<^verbatim>\<open>fields[key] = ''.join(content)\<close> without that check. So a second \<open>TEXT\<close> block of a
  \<open>DOCUMENT\<close> replaces the first without an error, in the tag parser and in the record
  returned by \<open>deserialize\<close>, while a second \<open>TYPE\<close> line raises.
\<close>

theorem second_text_block_overwrites:
  "\<not> field_is_array ''TEXT''
   \<and> process_nested_fields ''DOCUMENT'' []
        ''<TEXT>\<newline>first\<newline></TEXT>\<newline><TEXT>\<newline>second\<newline></TEXT>\<newline></DOCUMENT>\<newline>'' lg
     = Some (Inr [(''TEXT'', VStr ''second\<newline>'')], [], lg)
   \<and> deserialize (Some n)
        ''<SUBMISSION>\<newline><DOCUMENT>\<newline><TEXT>\<newline>first\<newline></TEXT>\<newline><TEXT>\<newline>second\<newline></TEXT>\<newline></DOCUMENT>\<newline>'' lg
     = Some (Inr [(''DOCUMENT'', VList [VDict [(''TEXT'', VStr ''second\<newline>'')]])], [],
             lg @ [(WARNING, ''Warning: top level Field '' @ quoted ''FILER''
                              @ '' not found in the file: '' @ n)])
   \<and> process_nested_fields ''DOCUMENT'' []
        ''<TYPE>first\<newline><TYPE>second\<newline></DOCUMENT>\<newline>'' lg
     = Some (Inl (DuplicateKey ''TYPE''), ''</DOCUMENT>\<newline>'', lg)"
  by code_simp

section \<open>Sequences under the array keys\<close>

lemma arrays_ok_VList: "arrays_ok (VList xs) = list_all arrays_ok xs"
  by (simp add: list_all_iff)

lemma arrays_ok_empty [simp]: "arrays_ok (VDict [])"
  by simp

lemma arrays_ok_VDict:
  "arrays_ok (VDict kvs) = list_all (\<lambda>(k, v). (field_is_array k \<longrightarrow> is_list v) \<and> arrays_ok v) kvs"
  by (auto simp: list_all_iff)


declare arrays_ok.simps(2,3) [simp del]

lemma arrays_ok_update:
  "arrays_ok (VDict f) \<Longrightarrow> (field_is_array k \<longrightarrow> is_list v) \<Longrightarrow> arrays_ok v
   \<Longrightarrow> arrays_ok (VDict (AList.update k v f))"
  unfolding arrays_ok_VDict by (induction f) auto

lemma arrays_ok_lookup:
  "arrays_ok (VDict f) \<Longrightarrow> map_of f k = Some v
   \<Longrightarrow> arrays_ok v \<and> (field_is_array k \<longrightarrow> is_list v)"
  unfolding arrays_ok_VDict by (induction f) (auto split: if_splits)

lemma list_append_ok:
  assumes "arrays_ok (VDict f)" "arrays_ok x" "list_append f k x = Inr f'"
  shows "arrays_ok (VDict f')"
proof (cases "map_of f k")
  case None
  with assms show ?thesis
    by (auto simp: list_append_def arrays_ok_VList intro!: arrays_ok_update)
next
  case (Some v)
  with assms(3) obtain xs where v: "v = VList xs" and f': "f' = AList.update k (VList (xs @ [x])) f"
    by (cases v) (auto simp: list_append_def)
  from arrays_ok_lookup [OF assms(1) Some] v have "list_all arrays_ok xs"
    by (simp add: arrays_ok_VList)
  with assms(1,2) show ?thesis unfolding f'
    by (intro arrays_ok_update) (auto simp: arrays_ok_VList)
qed

lemma store_child_ok:
  assumes "arrays_ok (VDict p)" "arrays_ok (VDict c)"
  shows "arrays_ok (VDict (store_child p slot c))"
proof (cases "field_is_array slot")
  case False
  with assms show ?thesis by (auto simp: store_child_def intro!: arrays_ok_update)
next
  case True
  show ?thesis
  proof (cases "map_of p slot")
    case None
    with True assms show ?thesis by (simp add: store_child_def)
  next
    case (Some v)
    show ?thesis
    proof (cases v)
      case (VList xs)
      from arrays_ok_lookup [OF assms(1) Some] VList have "list_all arrays_ok xs"
        by (simp add: arrays_ok_VList)
      then have "list_all arrays_ok (butlast xs @ [VDict c])"
        using assms(2) by (auto simp: list_all_iff dest: in_set_butlastD)
      with True Some VList assms(1) show ?thesis
        by (auto simp: store_child_def arrays_ok_VList intro!: arrays_ok_update)
    qed (use True Some assms in \<open>simp_all add: store_child_def\<close>)
  qed
qed


lemma attach_back_ok: "frame_ok c \<Longrightarrow> frame_ok p \<Longrightarrow> frame_ok (attach_back c p)"
  by (cases c; cases p) (simp add: frame_ok_def attach_back_def store_child_ok)

lemma close_all_ok:
  "frame_ok cur \<Longrightarrow> list_all frame_ok below \<Longrightarrow> arrays_ok (VDict (close_all cur below))"
proof (induction below arbitrary: cur)
  case Nil
  then show ?case by (simp add: frame_ok_def)
next
  case (Cons p ps)
  then show ?case by (simp add: attach_back_ok)
qed

lemma header_loop_ok:
  assumes "header_loop cur below reader lg = Some y"
  shows "frame_ok cur \<longrightarrow> list_all frame_ok below
         \<longrightarrow> (\<forall>f'. fst y = Inr f' \<longrightarrow> arrays_ok (VDict f'))"
proof (rule header_loop.raw_induct
         [where P = "\<lambda>cur below reader lg y. frame_ok cur \<longrightarrow> list_all frame_ok below
              \<longrightarrow> (\<forall>f'. fst y = Inr f' \<longrightarrow> arrays_ok (VDict f'))", OF _ assms], goal_cases)
  case (1 f cur below reader lg y)
  obtain fields km label slot where cur: "cur = (fields, km, label, slot)" by (cases cur) auto
  obtain line reader1 where rl: "readline reader = (line, reader1)" by (cases "readline reader") auto
  obtain p0 ps where sp: "split1 CHR '':'' line = p0 # ps"
    using split1_nonempty by (cases "split1 CHR '':'' line") auto
  show ?case
  proof (intro impI allI)
    fix f'
    assume ok: "frame_ok cur" "list_all frame_ok below" and y: "fst y = Inr f'"
    have emp: "\<And>a b c. frame_ok ([], a, b, c)" by (simp add: frame_ok_def)
    have pop: "below \<noteq> [] \<Longrightarrow> frame_ok (attach_back cur (hd below)) \<and> list_all frame_ok (tl below)"
      using ok by (cases below) (auto intro: attach_back_ok)
    have upd: "\<And>k v. \<not> field_is_array k \<Longrightarrow> arrays_ok v
                 \<Longrightarrow> frame_ok (AList.update k v fields, km, label, slot)"
      using ok(1) by (auto simp: frame_ok_def cur intro!: arrays_ok_update)
    have app: "\<And>k x f1. list_append fields k x = Inr f1 \<Longrightarrow> arrays_ok x
                 \<longrightarrow> frame_ok (f1, km, label, slot)"
      using ok(1) by (auto simp: frame_ok_def cur intro: list_append_ok)
    have IH: "\<And>c b r l. f c b r l = Some y \<Longrightarrow> frame_ok c \<Longrightarrow> list_all frame_ok b
                 \<Longrightarrow> arrays_ok (VDict f')"
      using 1(1) y by blast
    have cl: "arrays_ok (VDict (close_all cur below))"
      using ok by (rule close_all_ok)
    from 1(2) y ok(2) show "arrays_ok (VDict f')"
      using pop cl ok(1)
      by (auto simp: cur rl sp Let_def upd emp
               split: if_splits option.splits remap.splits sum.splits
               elim!: IH dest!: app)
  qed
qed

lemma processTxtHeader_ok:
  "processTxtHeader fields reader lg = Some (Inr f2, r2, l2) \<Longrightarrow> arrays_ok (VDict fields)
   \<longrightarrow> arrays_ok (VDict f2)"
  using header_loop_ok [of "(fields, KEY_MAP, [], [])" "[]" reader lg "(Inr f2, r2, l2)"]
  by (simp add: processTxtHeader_def frame_ok_def)

lemma list_append_ok_imp:
  "list_append f k x = Inr f' \<Longrightarrow> arrays_ok (VDict f) \<longrightarrow> arrays_ok x \<longrightarrow> arrays_ok (VDict f')"
  using list_append_ok by blast

lemma text_not_array: "\<not> field_is_array ''TEXT''"
  by (simp add: field_is_array_def)

lemma pnf_ok:
  assumes "process_nested_fields field_name fields reader lg = Some y"
  shows "arrays_ok (VDict fields) \<longrightarrow> (\<forall>f'. fst y = Inr f' \<longrightarrow> arrays_ok (VDict f'))"
proof (rule process_nested_fields.raw_induct
         [where P = "\<lambda>field_name fields reader lg y.
             arrays_ok (VDict fields) \<longrightarrow> (\<forall>f'. fst y = Inr f' \<longrightarrow> arrays_ok (VDict f'))",
          OF _ assms], goal_cases)
  case (1 f field_name fields reader lg y)
  obtain line reader1 where rl: "readline reader = (line, reader1)"
    by (cases "readline reader") auto
  have IH: "\<And>a b c d g r l. f a b c d = Some (Inr g, r, l)
              \<Longrightarrow> arrays_ok (VDict b) \<longrightarrow> arrays_ok (VDict g)"
    using 1(1) by fastforce
  show ?case
  proof (intro impI allI)
    fix f'
    assume ok: "arrays_ok (VDict fields)" and y: "fst y = Inr f'"
    obtain r' l' where y': "y = (Inr f', r', l')" using y by (cases y) auto
    from 1(2) ok show "arrays_ok (VDict f')"
      unfolding y'
      by (auto simp: rl Let_def arrays_ok_update store_child_ok text_not_array
               split: if_splits list.splits prod.splits sum.splits option.splits Option.bind_splits
               dest!: IH processTxtHeader_ok list_append_ok_imp)
  qed
qed

section \<open>Well-formed levels of a tag block\<close>

lemma is_space_newline: "is_space newline"
  by (simp add: is_space_def newline_def)

lemma dropWhile_all: "(\<forall>x\<in>set v. P x) \<Longrightarrow> dropWhile P v = []"
  by (induction v) auto

lemma strip_append_space: "is_space c \<Longrightarrow> strip (v @ [c]) = strip v"
proof (cases "\<forall>x\<in>set v. is_space x")
  case True
  assume c: "is_space c"
  from True c have "\<forall>x\<in>set (v @ [c]). is_space x" by simp
  from dropWhile_all [OF this] dropWhile_all [OF True] show ?thesis
    by (simp only: strip_def)
next
  case False
  assume c: "is_space c"
  from False have "dropWhile is_space (v @ [c]) = dropWhile is_space v @ [c]"
    by (auto simp: dropWhile_append)
  with c show ?thesis by (simp add: strip_def)
qed

lemma strip_newline_only: "strip [newline] = []"
  by (simp add: strip_def is_space_newline)

lemma not_close_tag:
  "\<not> startswith k ''/'' \<Longrightarrow> \<not> startswith (CHR ''<'' # k @ CHR ''>'' # s) (''</'' @ x)"
  by (cases k) (auto simp: startswith_def)

lemma split1_tag:
  "CHR ''>'' \<notin> set k \<Longrightarrow> split1 CHR ''>'' (CHR ''<'' # k @ CHR ''>'' # s) = [CHR ''<'' # k, s]"
proof -
  assume k: "CHR ''>'' \<notin> set k"
  then have "dropWhile (\<lambda>c. c \<noteq> CHR ''>'') k = []" by (intro dropWhile_all) auto
  with k show ?thesis by (simp add: split1_def takeWhile_tail dropWhile_append3)
qed

lemma readline_tag:
  "newline \<notin> set k \<Longrightarrow> newline \<notin> set v
   \<Longrightarrow> readline (CHR ''<'' # k @ CHR ''>'' # v @ newline # rest)
       = (CHR ''<'' # k @ CHR ''>'' # v @ [newline], rest)"
  using readline_append_line [of "CHR ''<'' # k @ CHR ''>'' # v" rest]
  by (simp add: newline_def)


lemma top_ok_empty: "top_ok []"
  by (simp add: top_ok_def)

lemma list_append_put:
  "top_ok f \<Longrightarrow> field_is_array k \<Longrightarrow> list_append f k x = Inr (put f k x)"
  by (auto simp: top_ok_def list_append_def put_def elems_def split: option.splits pyval.splits)

lemma top_ok_put: "top_ok f \<Longrightarrow> top_ok (put f k x)"
  by (auto simp: top_ok_def put_def update_conv')

lemma store_child_put:
  "field_is_array k \<Longrightarrow> store_child (put f k (VDict [])) k c = put f k (VDict c)"
  by (simp add: store_child_def put_def update_conv')

lemma store_child_single:
  "\<not> field_is_array k \<Longrightarrow> store_child (AList.update k (VDict []) f) k c = put f k (VDict c)"
  by (simp add: store_child_def put_def)

lemma map_of_put_other: "k' \<noteq> k \<Longrightarrow> map_of (put f k x) k' = map_of f k'"
  by (simp add: put_def update_conv')

lemma leaf_step:
  assumes "well_formed (Leaf k v)" "top_ok f" "field_is_array k \<or> map_of f k = None"
  shows "process_nested_fields fn f (render (Leaf k v) @ rest) lg
       = process_nested_fields fn (put f k (VStr (strip v))) rest lg"
proof -
  from assms(1) have ck: "clean_key k" and nv: "newline \<notin> set v"
    and sv: "strip v \<noteq> [] \<or> k \<in> set flag_keys" by auto
  from ck have k: "strip k = k" "CHR ''>'' \<notin> set k" "newline \<notin> set k" "\<not> startswith k ''/''"
    "k \<noteq> ''TEXT''" "k \<noteq> ''SEC-HEADER''" by (auto simp: clean_key_def)
  let ?line = "CHR ''<'' # k @ CHR ''>'' # v @ [newline]"
  have r: "render (Leaf k v) @ rest = CHR ''<'' # k @ CHR ''>'' # v @ newline # rest" by simp
  have rl: "readline (render (Leaf k v) @ rest) = (?line, rest)"
    unfolding r by (rule readline_tag [OF k(3) nv])
  have sp: "split1 CHR ''>'' ?line = (CHR ''<'' # k) # (v @ [newline]) # []"
    by (rule split1_tag [OF k(2)])
  have key: "k = strip (tl (CHR ''<'' # k))" by (simp add: k(1))
  have val: "strip v = strip (v @ [newline])"
    by (simp add: strip_append_space is_space_newline)
  have nc: "\<not> startswith ?line (''</'' @ fn @ ''>'')" "\<not> startswith ?line ''</SEC-DOCUMENT>''"
    using not_close_tag [OF k(4), of "v @ [newline]" "fn @ ''>''"]
          not_close_tag [OF k(4), of "v @ [newline]" "''SEC-DOCUMENT>''"] by simp_all
  have st: "startswith ?line ''<''" by (simp add: startswith_def)
  show ?thesis
    using k(5,6) sv assms(2,3)
    by (subst pnf_step [OF rl _ nc st sp key val])
       (auto simp: list_append_put put_def)
qed

lemma pnf_close:
  assumes "readline reader = (line, reader1)" "startswith line (''</'' @ fn @ ''>'')"
  shows "process_nested_fields fn f reader lg = Some (Inr f, reader1, lg)"
  using assms by (subst process_nested_fields.simps) (auto simp: startswith_def)

lemma close_step:
  assumes "newline \<notin> set k"
  shows "process_nested_fields k f (''</'' @ k @ ''>'' @ newline # rest) lg = Some (Inr f, rest, lg)"
proof -
  have rl: "readline (''</'' @ k @ ''>'' @ newline # rest) = (''</'' @ k @ ''>'' @ [newline], rest)"
    using readline_append_line [of "''</'' @ k @ ''>''" rest] assms by (simp add: newline_def)
  show ?thesis
    by (rule pnf_close [OF rl]) (simp add: startswith_def)
qed

lemma block_step:
  assumes "clean_key k" "k \<notin> set flag_keys" "top_ok f" "field_is_array k \<or> map_of f k = None"
    and inner: "process_nested_fields k [] (body @ ''</'' @ k @ ''>'' @ newline # rest) lg
                  = Some (Inr child, rest, lg)"
  shows "process_nested_fields fn f
           (''<'' @ k @ ''>'' @ [newline] @ body @ ''</'' @ k @ ''>'' @ [newline] @ rest) lg
       = process_nested_fields fn (put f k (VDict child)) rest lg"
proof -
  from assms(1) have k: "strip k = k" "CHR ''>'' \<notin> set k" "newline \<notin> set k" "\<not> startswith k ''/''"
    "k \<noteq> ''TEXT''" "k \<noteq> ''SEC-HEADER''" by (auto simp: clean_key_def)
  let ?line = "CHR ''<'' # k @ CHR ''>'' # [] @ [newline]"
  let ?rest = "body @ ''</'' @ k @ ''>'' @ newline # rest"
  have rl: "readline (''<'' @ k @ ''>'' @ [newline] @ body @ ''</'' @ k @ ''>'' @ [newline] @ rest)
              = (?line, ?rest)"
    using readline_tag [OF k(3), of "[]" ?rest] by simp
  have sp: "split1 CHR ''>'' ?line = (CHR ''<'' # k) # ([] @ [newline]) # []"
    by (rule split1_tag [OF k(2)])
  have key: "k = strip (tl (CHR ''<'' # k))" by (simp add: k(1))
  have val: "[] = strip ([] @ [newline])" by (simp add: strip_newline_only)
  have nc: "\<not> startswith ?line (''</'' @ fn @ ''>'')" "\<not> startswith ?line ''</SEC-DOCUMENT>''"
    using not_close_tag [OF k(4), of "[newline]" "fn @ ''>''"]
          not_close_tag [OF k(4), of "[newline]" "''SEC-DOCUMENT>''"] by simp_all
  have st: "startswith ?line ''<''" by (simp add: startswith_def)
  show ?thesis
    using k(5,6) assms(2,3,4) inner
    by (subst pnf_step [OF rl _ nc st sp key val])
       (auto simp: list_append_put store_child_put store_child_single)
qed

lemma parse_level_aux:
  assumes step: "\<And>i fn f rest lg. i \<in> set its \<Longrightarrow> top_ok f
            \<Longrightarrow> field_is_array (key_of i) \<or> map_of f (key_of i) = None
            \<Longrightarrow> process_nested_fields fn f (render i @ rest) lg
                = process_nested_fields fn (put f (key_of i) (value_of i)) rest lg"
    and "top_ok f" "single_keys_distinct its"
    and "\<forall>i\<in>set its. \<not> field_is_array (key_of i) \<longrightarrow> map_of f (key_of i) = None"
  shows "process_nested_fields fn f (concat (map render its) @ rest) lg
       = process_nested_fields fn (build f its) rest lg"
  using assms
proof (induction its arbitrary: f)
  case Nil
  then show ?case by (simp add: build_def)
next
  case (Cons i its)
  let ?f = "put f (key_of i) (value_of i)"
  have one: "process_nested_fields fn f (render i @ concat (map render its) @ rest) lg
           = process_nested_fields fn ?f (concat (map render its) @ rest) lg"
    using Cons.prems(2,4) by (intro Cons.prems(1)) auto
  have d: "single_keys_distinct its"
    using Cons.prems(3) by (auto simp: single_keys_distinct_def split: if_splits)
  have fresh: "\<forall>j\<in>set its. \<not> field_is_array (key_of j) \<longrightarrow> map_of ?f (key_of j) = None"
  proof (intro ballI impI)
    fix j assume j: "j \<in> set its" "\<not> field_is_array (key_of j)"
    have "key_of j \<noteq> key_of i"
    proof (cases "field_is_array (key_of i)")
      case True
      with j(2) show ?thesis by auto
    next
      case False
      with Cons.prems(3) have "key_of i \<notin> set (filter (\<lambda>k. \<not> field_is_array k) (map key_of its))"
        by (simp add: single_keys_distinct_def)
      moreover from j have "key_of j \<in> set (filter (\<lambda>k. \<not> field_is_array k) (map key_of its))"
        by simp
      ultimately show ?thesis by metis
    qed
    with Cons.prems(4) j show "map_of ?f (key_of j) = None"
      by (simp add: map_of_put_other)
  qed
  have "process_nested_fields fn ?f (concat (map render its) @ rest) lg
      = process_nested_fields fn (build ?f its) rest lg"
    using Cons.prems(1) by (intro Cons.IH [OF _ top_ok_put [OF Cons.prems(2)] d fresh]) auto
  with one show ?case by (simp add: build_def)
qed

lemma parse_item:
  "well_formed i \<Longrightarrow> top_ok f \<Longrightarrow> field_is_array (key_of i) \<or> map_of f (key_of i) = None
   \<Longrightarrow> process_nested_fields fn f (render i @ rest) lg
       = process_nested_fields fn (put f (key_of i) (value_of i)) rest lg"
proof (induction i arbitrary: fn f rest lg)
  case (Leaf k v)
  then show ?case using leaf_step [of k v f fn rest lg] by simp
next
  case (Block k its)
  from Block.prems(1) have ck: "clean_key k" and nf: "k \<notin> set flag_keys"
    and wf: "list_all well_formed its" and d: "single_keys_distinct its" by auto
  from ck have nk: "newline \<notin> set k" by (simp add: clean_key_def)
  have "process_nested_fields k [] (concat (map render its) @ ''</'' @ k @ ''>'' @ newline # rest) lg
      = process_nested_fields k (build [] its) (''</'' @ k @ ''>'' @ newline # rest) lg"
    using wf by (intro parse_level_aux [OF Block.IH top_ok_empty d]) (auto simp: list_all_iff)
  also have "\<dots> = Some (Inr (build [] its), rest, lg)"
    by (rule close_step [OF nk])
  finally have inner: "process_nested_fields k []
        (concat (map render its) @ ''</'' @ k @ ''>'' @ newline # rest) lg
      = Some (Inr (build [] its), rest, lg)" .
  from block_step [OF ck nf Block.prems(2) _ inner, of fn] Block.prems(3)
  show ?case by (simp add: build_def)
qed

lemma parse_level:
  assumes "list_all well_formed its" "single_keys_distinct its"
  shows "process_nested_fields fn [] (concat (map render its) @ rest) lg
       = process_nested_fields fn (build [] its) rest lg"
  using assms(1)
  by (intro parse_level_aux [OF parse_item top_ok_empty assms(2)]) (auto simp: list_all_iff)


lemma elems_put:
  "field_is_array K \<Longrightarrow> elems (put f k x) K = (if k = K then elems f K @ [x] else elems f K)"
  by (simp add: elems_def put_def update_conv')

lemma elems_build:
  "field_is_array K \<Longrightarrow> elems (build f its) K = elems f K @ map value_of (occurrences K its)"
  unfolding build_def occurrences_def
  by (induction its arbitrary: f) (simp_all add: elems_put)

lemma listed_put:
  "field_is_array K \<Longrightarrow> k = K \<or> (\<exists>xs. map_of f K = Some (VList xs))
   \<Longrightarrow> \<exists>xs. map_of (put f k x) K = Some (VList xs)"
  by (auto simp: put_def update_conv')

lemma listed_build:
  "field_is_array K \<Longrightarrow> occurrences K its \<noteq> [] \<or> (\<exists>xs. map_of f K = Some (VList xs))
   \<Longrightarrow> \<exists>xs. map_of (build f its) K = Some (VList xs)"
proof (induction its arbitrary: f)
  case Nil
  then show ?case by (simp add: build_def occurrences_def)
next
  case (Cons i its)
  have "occurrences K its \<noteq> [] \<or> (\<exists>xs. map_of (put f (key_of i) (value_of i)) K = Some (VList xs))"
  proof (cases "key_of i = K")
    case True
    with Cons.prems(1) show ?thesis using listed_put [of K K f "value_of i"] by simp
  next
    case False
    with Cons.prems show ?thesis
      using listed_put [of K "key_of i" f "value_of i"] by (auto simp: occurrences_def)
  qed
  from Cons.IH [OF Cons.prems(1) this] show ?case by (simp add: build_def)
qed

lemma occurrences_value:
  assumes "field_is_array K" "occurrences K its \<noteq> []"
  shows "map_of (build [] its) K = Some (VList (map value_of (occurrences K its)))"
proof -
  from listed_build [OF assms(1), of its "[]"] assms(2)
  obtain xs where xs: "map_of (build [] its) K = Some (VList xs)" by blast
  then have "elems (build [] its) K = xs" by (simp add: elems_def)
  with elems_build [OF assms(1), of "[]" its] have "xs = map value_of (occurrences K its)"
    by (simp add: elems_def)
  with xs show ?thesis by simp
qed

lemma deserialize_ok:
  assumes "deserialize name reader lg = Some (Inr fields', reader', lg')"
  shows "arrays_ok (VDict fields')"
proof -
  obtain first_line reader1 where rl: "readline reader = (first_line, reader1)"
    by (cases "readline reader") auto
  from assms obtain r2 l2 where
    "process_nested_fields ''SUBMISSION'' [] reader1 lg = Some (Inr fields', r2, l2)"
    by (auto simp: deserialize_def rl log_and_raise_def
             split: if_splits option.splits sum.splits simp del: check_expected.simps)
  from pnf_ok [OF this] show ?thesis by simp
qed

lemma arrays_ok_top_ok: "arrays_ok (VDict f) \<Longrightarrow> top_ok f"
  unfolding top_ok_def using arrays_ok_lookup by blast

text \<open>A level of well-formed tag items, closed by the tag of its block, is parsed
  into \<open>build [] its\<close>: under an array key, the values of its occurrences in the order
  of the lines.\<close>

lemma tag_level_returns:
  assumes "list_all well_formed its" "single_keys_distinct its" "newline \<notin> set fn"
  shows "process_nested_fields fn [] (concat (map render its) @ ''</'' @ fn @ ''>'' @ newline # rest) lg
       = Some (Inr (build [] its), rest, lg)"
  using parse_level [OF assms(1,2), of fn "''</'' @ fn @ ''>'' @ newline # rest" lg]
        close_step [OF assms(3), of "build [] its" rest lg]
  by simp

text \<open>
  Claim C2. The claim says that \<open>n\<close> occurrences of an array key at the same level give
  a sequence of length \<open>n\<close>, in either parser. The tag parser does so: two \<open><FILER>\<close>
  blocks give a \<open>FILER\<close> sequence of two records. The header parser, which has the same
  branch that appends to the sequence, does not: a blank line pops one frame only, so
  after the blank line that ends the \<open>COMPANY DATA\<close> section the frame of the first
  \<open>FILER\<close> section is still the active one, and the second \<open>FILER:\<close> line is looked up
  in the table of the \<open>FILER\<close> section, where it is not a key, and is dropped without a
  warning. A header with two \<open>FILER\<close> sections gives a \<open>FILER\<close> sequence of length one,
  and the lines of the second section are lost; so do two \<open>FILER:\<close> lines in a row.
\<close>

theorem header_second_filer_dropped:
  "processTxtHeader [] two_filers_header lg
     = Some (Inr [(''FILER'', VList [VDict [(''COMPANY-DATA'',
                     VDict [(''CONFORMED-NAME'', VStr ''ACME CORP''),
                            (''CIK'', VStr ''0000000001'')])]])],
             [],
             lg @ [unknown_warning ''COMPANY CONFORMED NAME'' ''BETA INC'' [],
                   unknown_warning ''CENTRAL INDEX KEY'' ''0000000002'' []])
   \<and> processTxtHeader [] ''FILER:\<newline>FILER:\<newline></SEC-HEADER>\<newline>'' lg
     = Some (Inr [(''FILER'', VList [VDict []])], [], lg)
   \<and> process_nested_fields ''SUBMISSION'' []
        ''<FILER>\<newline><CIK>1\<newline></FILER>\<newline><FILER>\<newline><CIK>2\<newline></FILER>\<newline>'' lg
     = Some (Inr [(''FILER'', VList [VDict [(''CIK'', VStr ''1'')], VDict [(''CIK'', VStr ''2'')]])],
             [], lg)"
proof -
  have "processTxtHeader [] two_filers_header lg
     = Some (Inr [(''FILER'', VList [VDict [(''COMPANY-DATA'',
                     VDict [(''CONFORMED-NAME'', VStr ''ACME CORP''),
                            (''CIK'', VStr ''0000000001'')])]])],
             [],
             (lg @ [unknown_warning ''COMPANY CONFORMED NAME'' ''BETA INC'' []])
                 @ [unknown_warning ''CENTRAL INDEX KEY'' ''0000000002'' []])"
    unfolding two_filers_header_def by code_simp
  moreover have "processTxtHeader [] ''FILER:\<newline>FILER:\<newline></SEC-HEADER>\<newline>'' lg
     = Some (Inr [(''FILER'', VList [VDict []])], [], lg)
   \<and> process_nested_fields ''SUBMISSION'' []
        ''<FILER>\<newline><CIK>1\<newline></FILER>\<newline><FILER>\<newline><CIK>2\<newline></FILER>\<newline>'' lg
     = Some (Inr [(''FILER'', VList [VDict [(''CIK'', VStr ''1'')], VDict [(''CIK'', VStr ''2'')]])],
             [], lg)"
    by code_simp
  ultimately show ?thesis by simp
qed

end
